theory Spec2Isabelle
  imports Main "HOL-Library.Word"
begin

unbundle bit_operations_syntax

section \<open>Data model of camera.h and camera.cpp\<close>

type_synonym u8 = "8 word"
type_synonym u16 = "16 word"
type_synonym u32 = "32 word"
type_synonym u64 = "64 word"
type_synonym addr = "64 word"

text \<open>
  \<^verbatim>\<open>struct image\<close> and \<^verbatim>\<open>struct params\<close> of camera.h. Several structs of the
  source share field names (\<^verbatim>\<open>w\<close>, \<^verbatim>\<open>h\<close>, \<^verbatim>\<open>buf\<close>, \<^verbatim>\<open>type\<close>), so every field carries
  a prefix naming its struct.
\<close>

record image =
  img_id :: u32
  img_w :: u16
  img_h :: u16
  img_data :: addr
  img_bytes :: u32
  img_sec :: u64
  img_nsec :: u64

record params =
  par_w :: u16
  par_h :: u16
  par_fps :: u8
  par_fmt :: u32

text \<open>\<^verbatim>\<open>struct buffer_view\<close>, \<^verbatim>\<open>struct frame\<close> of camera.cpp. The array \<^verbatim>\<open>frame.buf\<close>
  is the list of its elements; \<^verbatim>\<open>bufcnt\<close> is a separate 8-bit counter, as in the source.\<close>

record buffer_view =
  bv_data :: addr
  bv_size :: u32

record frame =
  frm_w :: u16
  frm_h :: u16
  bufcnt :: u8
  frm_buf :: "buffer_view list"

text \<open>The fields of the V4L2 argument structs that camera.cpp writes or reads.\<close>

record v4l2_format =
  fmt_type :: u32
  pix_width :: u32
  pix_height :: u32
  pix_pixelformat :: u32
  pix_field :: u32

record v4l2_requestbuffers =
  req_count :: u32
  req_type :: u32
  req_memory :: u32

record v4l2_buffer =
  buf_index :: u32
  buf_type :: u32
  buf_bytesused :: u32
  buf_sequence :: u32
  buf_tv_sec :: u64
  buf_tv_usec :: u64
  buf_memory :: u32
  buf_offset :: u32
  buf_length :: u32

record v4l2_streamparm =
  parm_type :: u32
  parm_numerator :: u32
  parm_denominator :: u32

text \<open>\<^verbatim>\<open>class device\<close> and \<^verbatim>\<open>class stream\<close> (a stream holds a reference to its device).\<close>

record device =
  fd :: int
  dev_frame :: frame
  dev_buf :: v4l2_buffer

record stream =
  sdev :: device

definition POLL_TIMEOUT_MS :: int where "POLL_TIMEOUT_MS = 1000"
definition BUFFERS_CNT :: u8 where "BUFFERS_CNT = 2"

text \<open>Constants of the system headers (Linux values).\<close>

definition EINTR :: int where "EINTR = 4"
definition EAGAIN :: int where "EAGAIN = 11"
definition POLLIN :: u16 where "POLLIN = 1"
definition MAP_FAILED :: addr where "MAP_FAILED = - 1"
definition V4L2_BUF_TYPE_VIDEO_CAPTURE :: u32 where "V4L2_BUF_TYPE_VIDEO_CAPTURE = 1"
definition V4L2_MEMORY_MMAP :: u32 where "V4L2_MEMORY_MMAP = 1"
definition V4L2_FIELD_ANY :: u32 where "V4L2_FIELD_ANY = 0"

definition S_ISCHR :: "u32 \<Rightarrow> bool" where
  "S_ISCHR m \<longleftrightarrow> m AND 0xF000 = 0x2000"

section \<open>The environment: system calls\<close>

text \<open>
  The argument of a control operation is one of the structs above, passed by pointer.
\<close>

datatype ioarg =
    AFmt v4l2_format
  | AReq v4l2_requestbuffers
  | ABuf v4l2_buffer
  | AParm v4l2_streamparm
  | AType u32

datatype request =
    VIDIOC_S_FMT | VIDIOC_REQBUFS | VIDIOC_QUERYBUF | VIDIOC_QBUF
  | VIDIOC_DQBUF | VIDIOC_S_PARM | VIDIOC_STREAMON

text \<open>
  What one call of \<^verbatim>\<open>v4l2_ioctl\<close> answers: the return code, the value of \<^verbatim>\<open>errno\<close>,
  and what the device stores through the argument pointer (\<open>None\<close>: nothing).
\<close>

record ioctl_ret =
  rc :: int
  errno :: int
  wr :: "ioarg option"

record poll_ret =
  prc :: int
  perrno :: int
  revents :: u16

text \<open>The system calls made, in order, each with its arguments and its result.\<close>

datatype syscall =
    Stat string int
  | Open string int
  | Ioctl int request ioarg ioarg int int
  | Calloc u32 bool
  | Mmap u32 int u32 addr
  | Munmap addr u32
  | Close int
  | Poll int int int

text \<open>
  The world outside the program: for each kind of system call the answers the next calls
  will get, in order, and the log of the calls made so far. A call that finds its script
  empty has no answer yet: the run stops with \<open>Script_End\<close>, which is how a program
  still waiting (or retrying without end) shows. \<open>Out_Of_Bounds\<close> is a read outside
  the buffer array.
\<close>

record world =
  stat_rets :: "(int \<times> u32) list"
  open_rets :: "int list"
  ioctl_rets :: "ioctl_ret list"
  calloc_rets :: "bool list"
  mmap_rets :: "addr list"
  poll_rets :: "poll_ret list"
  calls :: "syscall list"

datatype stop = Script_End | Out_Of_Bounds

text \<open>The device stores a struct of the kind the operation takes; anything else
  leaves the argument as it was.\<close>

fun write_back :: "ioarg \<Rightarrow> ioarg option \<Rightarrow> ioarg" where
  "write_back (AFmt _) (Some (AFmt f)) = AFmt f"
| "write_back (AReq _) (Some (AReq r)) = AReq r"
| "write_back (ABuf _) (Some (ABuf b)) = ABuf b"
| "write_back (AParm _) (Some (AParm p)) = AParm p"
| "write_back (AType _) (Some (AType t)) = AType t"
| "write_back a _ = a"

text \<open>One call of \<^verbatim>\<open>v4l2_ioctl\<close>. The argument is passed by pointer: what the answer
  stores through it is there after the call, whether the call succeeded or failed.\<close>

definition v4l2_ioctl ::
  "world \<Rightarrow> int \<Rightarrow> request \<Rightarrow> ioarg \<Rightarrow> stop + (int \<times> int \<times> ioarg \<times> world)" where
  "v4l2_ioctl k f req arg =
     (case ioctl_rets k of
        [] \<Rightarrow> Inl Script_End
      | r # rs \<Rightarrow>
          Inr (rc r, errno r, write_back arg (wr r),
               k\<lparr>ioctl_rets := rs,
                 calls := calls k @ [Ioctl f req arg (write_back arg (wr r)) (rc r) (errno r)]\<rparr>))"

lemma v4l2_ioctl_shorter:
  "v4l2_ioctl k f req arg = Inr (r, e, a, k') \<Longrightarrow>
     length (ioctl_rets k') < length (ioctl_rets k)"
  by (auto simp: v4l2_ioctl_def split: list.splits)

section \<open>camera.cpp\<close>

text \<open>\<^verbatim>\<open>dev_ioctl\<close>, lines 55-66: the do-while loop around \<^verbatim>\<open>v4l2_ioctl\<close>.\<close>

function dev_ioctl ::
  "world \<Rightarrow> int \<Rightarrow> request \<Rightarrow> ioarg \<Rightarrow> stop + (bool \<times> ioarg \<times> world)" where
  "dev_ioctl k f req arg =
     (case v4l2_ioctl k f req arg of
        Inl e \<Rightarrow> Inl e
      | Inr (r, e, arg', k') \<Rightarrow>
          if r = - 1 \<and> (e = EINTR \<or> e = EAGAIN) then dev_ioctl k' f req arg'
          else if r < 0 then Inr (False, arg', k')
          else Inr (True, arg', k'))"
  by pat_completeness auto
termination
  by (relation "measure (\<lambda>(k, f, req, arg). length (ioctl_rets k))")
     (auto dest: v4l2_ioctl_shorter)

declare dev_ioctl.simps [simp del]


text \<open>The other system calls. Each takes the next answer of its script and logs the
  call; \<^verbatim>\<open>v4l2_munmap\<close> and \<^verbatim>\<open>v4l2_close\<close> are only logged, since the program never
  looks at what they return.\<close>

definition stat :: "world \<Rightarrow> string \<Rightarrow> stop + (int \<times> u32 \<times> world)" where
  "stat k path =
     (case stat_rets k of
        [] \<Rightarrow> Inl Script_End
      | (r, m) # rs \<Rightarrow> Inr (r, m, k\<lparr>stat_rets := rs, calls := calls k @ [Stat path r]\<rparr>))"

definition v4l2_open :: "world \<Rightarrow> string \<Rightarrow> stop + (int \<times> world)" where
  "v4l2_open k path =
     (case open_rets k of
        [] \<Rightarrow> Inl Script_End
      | r # rs \<Rightarrow> Inr (r, k\<lparr>open_rets := rs, calls := calls k @ [Open path r]\<rparr>))"

definition calloc :: "world \<Rightarrow> u32 \<Rightarrow> stop + (bool \<times> world)" where
  "calloc k n =
     (case calloc_rets k of
        [] \<Rightarrow> Inl Script_End
      | r # rs \<Rightarrow> Inr (r, k\<lparr>calloc_rets := rs, calls := calls k @ [Calloc n r]\<rparr>))"

text \<open>
  \<^verbatim>\<open>v4l2_mmap\<close> keeps the contract of \<^verbatim>\<open>mmap\<close>: a request of length zero fails, and a
  region that is handed out does not overlap a mapping that is still live. The live
  mappings are read off the log: every successful mapping, until it is unmapped. The
  script proposes the address; a proposal that the contract rules out is answered with
  \<^verbatim>\<open>MAP_FAILED\<close>.
\<close>

fun live_step :: "buffer_view list \<Rightarrow> syscall \<Rightarrow> buffer_view list" where
  "live_step bs (Mmap len f off a) =
     (if a = MAP_FAILED then bs else bs @ [\<lparr>bv_data = a, bv_size = len\<rparr>])"
| "live_step bs (Munmap a len) = filter (\<lambda>b. bv_data b \<noteq> a) bs"
| "live_step bs _ = bs"

definition live :: "syscall list \<Rightarrow> buffer_view list" where
  "live cs = foldl live_step [] cs"

definition apart :: "buffer_view \<Rightarrow> buffer_view \<Rightarrow> bool" where
  "apart b c \<longleftrightarrow>
     unat (bv_data b) + unat (bv_size b) \<le> unat (bv_data c) \<or>
     unat (bv_data c) + unat (bv_size c) \<le> unat (bv_data b)"

definition v4l2_mmap :: "world \<Rightarrow> u32 \<Rightarrow> int \<Rightarrow> u32 \<Rightarrow> stop + (addr \<times> world)" where
  "v4l2_mmap k len f off =
     (case mmap_rets k of
        [] \<Rightarrow> Inl Script_End
      | a # as \<Rightarrow>
          (let p = (if len \<noteq> 0 \<and> list_all (apart \<lparr>bv_data = a, bv_size = len\<rparr>) (live (calls k))
                    then a else MAP_FAILED)
           in Inr (p, k\<lparr>mmap_rets := as, calls := calls k @ [Mmap len f off p]\<rparr>)))"

definition v4l2_munmap :: "world \<Rightarrow> addr \<Rightarrow> u32 \<Rightarrow> world" where
  "v4l2_munmap k a len = k\<lparr>calls := calls k @ [Munmap a len]\<rparr>"

definition v4l2_close :: "world \<Rightarrow> int \<Rightarrow> world" where
  "v4l2_close k f = k\<lparr>calls := calls k @ [Close f]\<rparr>"

definition poll :: "world \<Rightarrow> int \<Rightarrow> int \<Rightarrow> stop + (int \<times> int \<times> u16 \<times> world)" where
  "poll k f timeout =
     (case poll_rets k of
        [] \<Rightarrow> Inl Script_End
      | r # rs \<Rightarrow>
          Inr (prc r, perrno r, revents r,
               k\<lparr>poll_rets := rs, calls := calls k @ [Poll f timeout (prc r)]\<rparr>))"

text \<open>Reading a struct back after the call (the argument keeps its kind).\<close>

fun the_fmt :: "ioarg \<Rightarrow> v4l2_format \<Rightarrow> v4l2_format" where
  "the_fmt (AFmt f) _ = f" | "the_fmt _ d = d"

fun the_req :: "ioarg \<Rightarrow> v4l2_requestbuffers \<Rightarrow> v4l2_requestbuffers" where
  "the_req (AReq r) _ = r" | "the_req _ d = d"

fun the_buf :: "ioarg \<Rightarrow> v4l2_buffer \<Rightarrow> v4l2_buffer" where
  "the_buf (ABuf b) _ = b" | "the_buf _ d = d"

fun the_parm :: "ioarg \<Rightarrow> v4l2_streamparm \<Rightarrow> v4l2_streamparm" where
  "the_parm (AParm p) _ = p" | "the_parm _ d = d"

text \<open>Facts about the 8-bit counters and their comparison with 32-bit values.\<close>

lemma u8_succ: "(i :: u8) < b \<Longrightarrow> unat (i + 1) = Suc (unat i)"
  by unat_arith

lemma u8_lt_256: "unat (n :: u8) < 256"
  using unsigned_less [of n] by simp

lemma unat_ucast_u8_u32: "unat (ucast (n :: u8) :: u32) = unat n"
proof -
  have "unat n < 2 ^ 32" using u8_lt_256 [of n] by simp
  then show ?thesis by (simp add: unsigned_ucast_eq take_bit_nat_eq_self_iff)
qed

lemma ucast_u8_less_u32: "(ucast (n :: u8) < (c :: u32)) = (unat n < unat c)"
  by (simp add: word_less_nat_alt unat_ucast_u8_u32)

text \<open>\<^verbatim>\<open>device::~device\<close>, lines 43-49: the unmap loop, then the close.\<close>

function unmap_loop :: "world \<Rightarrow> device \<Rightarrow> u8 \<Rightarrow> stop + world" where
  "unmap_loop k dev i =
     (if i < bufcnt (dev_frame dev) then
        (if unat i < length (frm_buf (dev_frame dev)) then
           unmap_loop
             (v4l2_munmap k (bv_data (frm_buf (dev_frame dev) ! unat i))
                            (bv_size (frm_buf (dev_frame dev) ! unat i)))
             dev (i + 1)
         else Inl Out_Of_Bounds)
      else Inr k)"
  by pat_completeness auto
termination
proof (relation "measure (\<lambda>(k, dev, i). unat (bufcnt (dev_frame dev)) - unat i)")
  show "wf (measure (\<lambda>(k, dev, i). unat (bufcnt (dev_frame dev)) - unat i))"
    by simp
next
  fix k :: world and dev :: device and i :: u8
  assume lt: "i < bufcnt (dev_frame dev)"
  then have "unat i < unat (bufcnt (dev_frame dev))"
    by (simp add: word_less_nat_alt)
  moreover from lt have "unat (i + 1) = Suc (unat i)"
    by (rule u8_succ)
  ultimately show
    "((v4l2_munmap k (bv_data (frm_buf (dev_frame dev) ! unat i))
         (bv_size (frm_buf (dev_frame dev) ! unat i)), dev, i + 1), (k, dev, i))
       \<in> measure (\<lambda>(k, dev, i). unat (bufcnt (dev_frame dev)) - unat i)"
    by simp
qed

declare unmap_loop.simps [simp del]

definition device_dtor :: "world \<Rightarrow> device \<Rightarrow> stop + world" where
  "device_dtor k dev =
     (case unmap_loop k dev 0 of
        Inl e \<Rightarrow> Inl e
      | Inr k' \<Rightarrow> Inr (v4l2_close k' (fd dev)))"

text \<open>\<^verbatim>\<open>open_camera\<close>, lines 68-87.\<close>

definition open_camera :: "world \<Rightarrow> string \<Rightarrow> stop + (int \<times> world)" where
  "open_camera k path =
     (case stat k path of
        Inl e \<Rightarrow> Inl e
      | Inr (r, st_mode, k1) \<Rightarrow>
          if r < 0 then Inr (- 1, k1)
          else if \<not> S_ISCHR st_mode then Inr (- 1, k1)
          else (case v4l2_open k1 path of
                  Inl e \<Rightarrow> Inl e
                | Inr (f, k2) \<Rightarrow> if f < 0 then Inr (- 1, k2) else Inr (f, k2)))"

text \<open>\<^verbatim>\<open>set_framerate\<close>, lines 89-106. The result is the 32-bit denominator cut to the
  8 bits of the return type.\<close>

definition set_framerate :: "world \<Rightarrow> device \<Rightarrow> u8 \<Rightarrow> stop + (u8 \<times> world)" where
  "set_framerate k dev fps =
     (let par = \<lparr>parm_type = V4L2_BUF_TYPE_VIDEO_CAPTURE, parm_numerator = 1,
                 parm_denominator = ucast fps\<rparr>
      in case dev_ioctl k (fd dev) VIDIOC_S_PARM (AParm par) of
           Inl e \<Rightarrow> Inl e
         | Inr (ok, a, k') \<Rightarrow>
             if \<not> ok then Inr (0, k')
             else Inr (ucast (parm_denominator (the_parm a par)), k'))"

text \<open>The \<^verbatim>\<open>memset\<close> of a \<^verbatim>\<open>v4l2_buffer\<close> followed by the assignments of type and
  memory, as lines 153-155, 175-177 and 259-261 do.\<close>

definition capture_buf :: v4l2_buffer where
  "capture_buf =
     \<lparr>buf_index = 0, buf_type = V4L2_BUF_TYPE_VIDEO_CAPTURE, buf_bytesused = 0,
      buf_sequence = 0, buf_tv_sec = 0, buf_tv_usec = 0, buf_memory = V4L2_MEMORY_MMAP,
      buf_offset = 0, buf_length = 0\<rparr>"

lemma dev_ioctl_shorter:
  "dev_ioctl k f req arg = Inr (ok, a, k') \<Longrightarrow>
     length (ioctl_rets k') < length (ioctl_rets k)"
proof (induction k f req arg rule: dev_ioctl.induct)
  case (1 k f req arg)
  from "1.prems" obtain r e arg1 k1 where
    v: "v4l2_ioctl k f req arg = Inr (r, e, arg1, k1)"
    by (subst (asm) dev_ioctl.simps) (auto split: sum.splits)
  show ?case
  proof (cases "r = - 1 \<and> (e = EINTR \<or> e = EAGAIN)")
    case True
    with "1.prems" v have "dev_ioctl k1 f req arg1 = Inr (ok, a, k')"
      by (subst (asm) dev_ioctl.simps) simp
    with "1.IH" [OF v refl refl refl True]
    have "length (ioctl_rets k') < length (ioctl_rets k1)" by simp
    with v4l2_ioctl_shorter [OF v] show ?thesis by simp
  next
    case False
    with "1.prems" v have "k' = k1"
      by (subst (asm) dev_ioctl.simps) (auto split: if_splits)
    with v4l2_ioctl_shorter [OF v] show ?thesis by simp
  qed
qed

lemma v4l2_mmap_ioctl_rets:
  "v4l2_mmap k len f off = Inr (a, k') \<Longrightarrow> ioctl_rets k' = ioctl_rets k"
  by (auto simp: v4l2_mmap_def Let_def split: list.splits)

text \<open>\<^verbatim>\<open>init_stream\<close>, lines 151-172: the loop that queries and maps each buffer. The
  counter is the 8-bit \<^verbatim>\<open>bufcnt\<close>, compared with the 32-bit \<^verbatim>\<open>req.count\<close>.\<close>

function map_loop :: "world \<Rightarrow> device \<Rightarrow> u32 \<Rightarrow> stop + (bool \<times> device \<times> world)" where
  "map_loop k dev cnt =
     (if ucast (bufcnt (dev_frame dev)) < cnt then
        (let buf = capture_buf\<lparr>buf_index := ucast (bufcnt (dev_frame dev))\<rparr>
         in case dev_ioctl k (fd dev) VIDIOC_QUERYBUF (ABuf buf) of
              Inl e \<Rightarrow> Inl e
            | Inr (ok, a, k1) \<Rightarrow>
                if \<not> ok then Inr (False, dev, k1)
                else if \<not> unat (bufcnt (dev_frame dev)) < length (frm_buf (dev_frame dev))
                then Inl Out_Of_Bounds
                else
                  (case v4l2_mmap k1 (buf_length (the_buf a buf)) (fd dev)
                          (buf_offset (the_buf a buf)) of
                     Inl e \<Rightarrow> Inl e
                   | Inr (p, k2) \<Rightarrow>
                       (let dev' = dev\<lparr>dev_frame := (dev_frame dev)
                              \<lparr>frm_buf := (frm_buf (dev_frame dev))
                                 [unat (bufcnt (dev_frame dev)) :=
                                    \<lparr>bv_data = p, bv_size = buf_length (the_buf a buf)\<rparr>]\<rparr>\<rparr>
                        in if p = MAP_FAILED then Inr (False, dev', k2)
                           else map_loop k2
                                  (dev'\<lparr>dev_frame := (dev_frame dev')
                                     \<lparr>bufcnt := bufcnt (dev_frame dev') + 1\<rparr>\<rparr>) cnt)))
      else Inr (True, dev, k))"
  by pat_completeness auto
termination
  by (relation "measure (\<lambda>(k, dev, cnt). length (ioctl_rets k))")
     (auto dest!: dev_ioctl_shorter v4l2_mmap_ioctl_rets)

declare map_loop.simps [simp del]

text \<open>\<^verbatim>\<open>init_stream\<close>, lines 174-184: the loop that enqueues each mapped buffer.\<close>

function queue_loop :: "world \<Rightarrow> device \<Rightarrow> u8 \<Rightarrow> stop + (bool \<times> world)" where
  "queue_loop k dev i =
     (if i < bufcnt (dev_frame dev) then
        (case dev_ioctl k (fd dev) VIDIOC_QBUF (ABuf (capture_buf\<lparr>buf_index := ucast i\<rparr>)) of
           Inl e \<Rightarrow> Inl e
         | Inr (ok, a, k1) \<Rightarrow>
             if \<not> ok then Inr (False, k1) else queue_loop k1 dev (i + 1))
      else Inr (True, k))"
  by pat_completeness auto
termination
  by (relation "measure (\<lambda>(k, dev, i). length (ioctl_rets k))")
     (auto dest!: dev_ioctl_shorter)

declare queue_loop.simps [simp del]

text \<open>\<^verbatim>\<open>init_stream\<close>, lines 108-189. The width and height that the device answers are
  32-bit; \<^verbatim>\<open>dev.frame.w\<close> and \<^verbatim>\<open>dev.frame.h\<close> keep their low 16 bits.\<close>

definition init_stream ::
  "world \<Rightarrow> device \<Rightarrow> params \<Rightarrow> stop + (bool \<times> device \<times> params \<times> world)" where
  "init_stream k dev p =
     (let fmt = \<lparr>fmt_type = V4L2_BUF_TYPE_VIDEO_CAPTURE, pix_width = ucast (par_w p),
                 pix_height = ucast (par_h p), pix_pixelformat = par_fmt p,
                 pix_field = V4L2_FIELD_ANY\<rparr>
      in case dev_ioctl k (fd dev) VIDIOC_S_FMT (AFmt fmt) of
           Inl e \<Rightarrow> Inl e
         | Inr (ok, a, k1) \<Rightarrow>
             if \<not> ok then Inr (False, dev, p, k1)
             else if pix_pixelformat (the_fmt a fmt) \<noteq> par_fmt p then Inr (False, dev, p, k1)
             else
               (let dev1 = dev\<lparr>dev_frame := (dev_frame dev)
                              \<lparr>frm_w := ucast (pix_width (the_fmt a fmt)),
                               frm_h := ucast (pix_height (the_fmt a fmt))\<rparr>\<rparr>;
                    p1 = p\<lparr>par_w := frm_w (dev_frame dev1), par_h := frm_h (dev_frame dev1)\<rparr>;
                    req = \<lparr>req_count = ucast BUFFERS_CNT,
                           req_type = V4L2_BUF_TYPE_VIDEO_CAPTURE,
                           req_memory = V4L2_MEMORY_MMAP\<rparr>
                in case dev_ioctl k1 (fd dev1) VIDIOC_REQBUFS (AReq req) of
                     Inl e \<Rightarrow> Inl e
                   | Inr (ok, a, k2) \<Rightarrow>
                       if \<not> ok then Inr (False, dev1, p1, k2)
                       else
                         (case calloc k2 (req_count (the_req a req)) of
                            Inl e \<Rightarrow> Inl e
                          | Inr (nonnull, k3) \<Rightarrow>
                              if \<not> nonnull
                              then Inr (False,
                                     dev1\<lparr>dev_frame := (dev_frame dev1)\<lparr>frm_buf := []\<rparr>\<rparr>, p1, k3)
                              else
                                (let dev2 = dev1\<lparr>dev_frame := (dev_frame dev1)
                                       \<lparr>frm_buf := replicate (unat (req_count (the_req a req)))
                                                     \<lparr>bv_data = 0, bv_size = 0\<rparr>,
                                        bufcnt := 0\<rparr>\<rparr>
                                 in case map_loop k3 dev2 (req_count (the_req a req)) of
                                      Inl e \<Rightarrow> Inl e
                                    | Inr (ok, dev3, k4) \<Rightarrow>
                                        if \<not> ok then Inr (False, dev3, p1, k4)
                                        else
                                          (case queue_loop k4 dev3 0 of
                                             Inl e \<Rightarrow> Inl e
                                           | Inr (ok, k5) \<Rightarrow>
                                               if \<not> ok then Inr (False, dev3, p1, k5)
                                               else
                                                 (case set_framerate k5 dev3 (par_fps p1) of
                                                    Inl e \<Rightarrow> Inl e
                                                  | Inr (fps, k6) \<Rightarrow>
                                                      Inr (True, dev3,
                                                           p1\<lparr>par_fps := fps\<rparr>, k6)))))))"

text \<open>
  \<^verbatim>\<open>new device(fd)\<close>, line 200. The constructor sets \<^verbatim>\<open>fd\<close>, and \<^verbatim>\<open>frame.w\<close> and
  \<^verbatim>\<open>frame.h\<close> have the initialiser 0; \<^verbatim>\<open>frame.bufcnt\<close>, \<^verbatim>\<open>frame.buf\<close> and \<^verbatim>\<open>buf\<close> have
  none, so they hold what the fresh memory \<open>raw\<close> held.
\<close>

definition device_new :: "int \<Rightarrow> device \<Rightarrow> device" where
  "device_new f raw = raw\<lparr>fd := f, dev_frame := (dev_frame raw)\<lparr>frm_w := 0, frm_h := 0\<rparr>\<rparr>"

text \<open>\<^verbatim>\<open>create_stream\<close>, lines 191-206. \<open>None\<close> as path is the null pointer, \<open>None\<close> as
  stream is \<^verbatim>\<open>nullptr\<close>. On the failure of \<^verbatim>\<open>init_stream\<close> the function returns at
  once: the device object is not deleted, so its destructor does not run.\<close>

definition create_stream ::
  "world \<Rightarrow> string option \<Rightarrow> params \<Rightarrow> device \<Rightarrow> stop + (stream option \<times> params \<times> world)" where
  "create_stream k path p raw =
     (case path of
        None \<Rightarrow> Inr (None, p, k)
      | Some pth \<Rightarrow>
          (case open_camera k pth of
             Inl e \<Rightarrow> Inl e
           | Inr (f, k1) \<Rightarrow>
               if f < 0 then Inr (None, p, k1)
               else
                 (case init_stream k1 (device_new f raw) p of
                    Inl e \<Rightarrow> Inl e
                  | Inr (ok, dev, p', k2) \<Rightarrow>
                      if \<not> ok then Inr (None, p', k2)
                      else Inr (Some \<lparr>sdev = dev\<rparr>, p', k2))))"

text \<open>\<^verbatim>\<open>stream::~stream\<close>, line 209: deletes the device.\<close>

definition stream_dtor :: "world \<Rightarrow> stream \<Rightarrow> stop + world" where
  "stream_dtor k s = device_dtor k (sdev s)"

text \<open>\<^verbatim>\<open>stream::start\<close>, lines 211-220.\<close>

definition start :: "world \<Rightarrow> stream \<Rightarrow> stop + (bool \<times> stream \<times> world)" where
  "start k s =
     (case dev_ioctl k (fd (sdev s)) VIDIOC_STREAMON (AType V4L2_BUF_TYPE_VIDEO_CAPTURE) of
        Inl e \<Rightarrow> Inl e
      | Inr (ok, a, k') \<Rightarrow> if \<not> ok then Inr (False, s, k') else Inr (True, s, k'))"

text \<open>\<^verbatim>\<open>stream::get_frame_size\<close>, lines 222-226.\<close>

definition get_frame_size :: "stream \<Rightarrow> u16 \<times> u16" where
  "get_frame_size s = (frm_w (dev_frame (sdev s)), frm_h (dev_frame (sdev s)))"

text \<open>\<^verbatim>\<open>stream::put_frame\<close>, lines 228-233. The operation gets the address of
  \<^verbatim>\<open>dev_.buf\<close>, so what the device stores there stays in the stream.\<close>

definition put_frame :: "world \<Rightarrow> stream \<Rightarrow> stop + (stream \<times> world)" where
  "put_frame k s =
     (if buf_bytesused (dev_buf (sdev s)) \<noteq> 0 then
        (case dev_ioctl k (fd (sdev s)) VIDIOC_QBUF (ABuf (dev_buf (sdev s))) of
           Inl e \<Rightarrow> Inl e
         | Inr (ok, a, k') \<Rightarrow>
             Inr (s\<lparr>sdev := (sdev s)\<lparr>dev_buf := the_buf a (dev_buf (sdev s))\<rparr>\<rparr>, k'))
      else Inr (s, k))"

lemma poll_shorter:
  "poll k f t = Inr (r, e, rv, k') \<Longrightarrow> length (poll_rets k') < length (poll_rets k)"
  by (auto simp: poll_def split: list.splits)

text \<open>\<^verbatim>\<open>stream::get_frame\<close>, lines 241-278: the poll loop and the return statement.\<close>

function get_frame_loop ::
  "world \<Rightarrow> device \<Rightarrow> image \<Rightarrow> stop + (bool \<times> image \<times> device \<times> world)" where
  "get_frame_loop k dev out =
     (case poll k (fd dev) POLL_TIMEOUT_MS of
        Inl e \<Rightarrow> Inl e
      | Inr (r, e, rv, k1) \<Rightarrow>
          if r = 0 then Inr (img_bytes out \<noteq> 0, out, dev, k1)
          else if r < 0 then
            (if e = EINTR then get_frame_loop k1 dev out else Inr (False, out, dev, k1))
          else if rv AND POLLIN = 0 then get_frame_loop k1 dev out
          else
            (case dev_ioctl k1 (fd dev) VIDIOC_DQBUF (ABuf capture_buf) of
               Inl e \<Rightarrow> Inl e
             | Inr (ok, a, k2) \<Rightarrow>
                 (let dev' = dev\<lparr>dev_buf := the_buf a capture_buf\<rparr>
                  in if \<not> ok then Inr (False, out, dev', k2)
                     else if \<not> unat (buf_index (dev_buf dev')) < length (frm_buf (dev_frame dev'))
                     then Inl Out_Of_Bounds
                     else
                       (let out' = out
                              \<lparr>img_w := frm_w (dev_frame dev'),
                               img_h := frm_h (dev_frame dev'),
                               img_data := bv_data (frm_buf (dev_frame dev')
                                             ! unat (buf_index (dev_buf dev'))),
                               img_bytes := buf_bytesused (dev_buf dev'),
                               img_id := buf_sequence (dev_buf dev'),
                               img_sec := buf_tv_sec (dev_buf dev'),
                               img_nsec := buf_tv_usec (dev_buf dev') * 1000\<rparr>
                        in Inr (img_bytes out' \<noteq> 0, out', dev', k2)))))"
  by pat_completeness auto
termination
  by (relation "measure (\<lambda>(k, dev, out). length (poll_rets k))")
     (auto dest!: poll_shorter)

declare get_frame_loop.simps [simp del]

text \<open>\<^verbatim>\<open>stream::get_frame\<close>, lines 235-279: line 239 first, then the loop.\<close>

definition get_frame ::
  "world \<Rightarrow> stream \<Rightarrow> image \<Rightarrow> stop + (bool \<times> image \<times> stream \<times> world)" where
  "get_frame k s out =
     (case get_frame_loop k
             ((sdev s)\<lparr>dev_buf := (dev_buf (sdev s))\<lparr>buf_bytesused := 0\<rparr>\<rparr>) out of
        Inl e \<Rightarrow> Inl e
      | Inr (ok, out', dev, k') \<Rightarrow> Inr (ok, out', s\<lparr>sdev := dev\<rparr>, k'))"

section \<open>Concrete worlds\<close>

text \<open>Building blocks of the concrete runs below: the world with empty scripts and an
  empty log, and answers of a control operation.\<close>

definition world0 :: world where
  "world0 = \<lparr>stat_rets = [], open_rets = [], ioctl_rets = [], calloc_rets = [],
             mmap_rets = [], poll_rets = [], calls = []\<rparr>"

definition ret :: "int \<Rightarrow> int \<Rightarrow> ioarg option \<Rightarrow> ioctl_ret" where
  "ret r e w = \<lparr>rc = r, errno = e, wr = w\<rparr>"

definition EINVAL :: int where "EINVAL = 22"

section \<open>The retrying wrapper\<close>

text \<open>The loop condition of \<^verbatim>\<open>dev_ioctl\<close>: the call failed with a signal interrupt or
  with resource-temporarily-unavailable.\<close>

definition transient :: "ioctl_ret \<Rightarrow> bool" where
  "transient r \<longleftrightarrow> rc r = - 1 \<and> (errno r = EINTR \<or> errno r = EAGAIN)"

text \<open>The log entry of one call that got the answer \<open>r\<close>; and for a list of answers
  given to successive calls through the same pointer, what the argument holds in the
  end and the log entries of the calls, each call seeing what the ones before stored.\<close>

definition attempt :: "int \<Rightarrow> request \<Rightarrow> ioarg \<Rightarrow> ioctl_ret \<Rightarrow> syscall" where
  "attempt f req arg r = Ioctl f req arg (write_back arg (wr r)) (rc r) (errno r)"

fun written :: "ioarg \<Rightarrow> ioctl_ret list \<Rightarrow> ioarg" where
  "written a [] = a"
| "written a (r # rs) = written (write_back a (wr r)) rs"

fun attempts :: "int \<Rightarrow> request \<Rightarrow> ioarg \<Rightarrow> ioctl_ret list \<Rightarrow> syscall list" where
  "attempts f req a [] = []"
| "attempts f req a (r # rs) = attempt f req a r # attempts f req (write_back a (wr r)) rs"

lemma written_append: "written a (xs @ ys) = written (written a xs) ys"
  by (induction xs arbitrary: a) simp_all

lemma attempts_append:
  "attempts f req a (xs @ ys) = attempts f req a xs @ attempts f req (written a xs) ys"
  by (induction xs arbitrary: a) simp_all

lemma length_attempts [simp]: "length (attempts f req a rs) = length rs"
  by (induction rs arbitrary: a) simp_all

lemma attempts_all:
  "(\<And>a t. t \<in> set rs \<Longrightarrow> P (attempt f req a t)) \<Longrightarrow> list_all P (attempts f req a rs)"
  by (induction rs arbitrary: a) simp_all

lemma dev_ioctl_Nil:
  "ioctl_rets k = [] \<Longrightarrow> dev_ioctl k f req arg = Inl Script_End"
  by (simp add: dev_ioctl.simps v4l2_ioctl_def)

lemma dev_ioctl_transient:
  "ioctl_rets k = r # rs \<Longrightarrow> transient r \<Longrightarrow>
     dev_ioctl k f req arg =
       dev_ioctl (k\<lparr>ioctl_rets := rs, calls := calls k @ [attempt f req arg r]\<rparr>) f req
         (write_back arg (wr r))"
  by (subst dev_ioctl.simps) (simp add: v4l2_ioctl_def transient_def attempt_def)

lemma dev_ioctl_final:
  "ioctl_rets k = r # rs \<Longrightarrow> \<not> transient r \<Longrightarrow>
     dev_ioctl k f req arg =
       Inr (0 \<le> rc r, write_back arg (wr r),
            k\<lparr>ioctl_rets := rs, calls := calls k @ [attempt f req arg r]\<rparr>)"
  by (subst dev_ioctl.simps) (auto simp: v4l2_ioctl_def transient_def attempt_def)

lemma dev_ioctl_script:
  "ioctl_rets k = pre @ r # rest \<Longrightarrow> \<forall>t \<in> set pre. transient t \<Longrightarrow> \<not> transient r \<Longrightarrow>
     dev_ioctl k f req arg =
       Inr (0 \<le> rc r, written arg (pre @ [r]),
            k\<lparr>ioctl_rets := rest,
              calls := calls k @ attempts f req arg (pre @ [r])\<rparr>)"
proof (induction pre arbitrary: k arg)
  case Nil
  then show ?case by (simp add: dev_ioctl_final)
next
  case (Cons t pre)
  let ?k = "k\<lparr>ioctl_rets := pre @ r # rest, calls := calls k @ [attempt f req arg t]\<rparr>"
  let ?a = "write_back arg (wr t)"
  have "dev_ioctl k f req arg = dev_ioctl ?k f req ?a"
    using Cons.prems by (simp add: dev_ioctl_transient)
  also have "\<dots> = Inr (0 \<le> rc r, written ?a (pre @ [r]),
            ?k\<lparr>ioctl_rets := rest, calls := calls ?k @ attempts f req ?a (pre @ [r])\<rparr>)"
    using Cons.prems by (intro Cons.IH) simp_all
  finally show ?case by simp
qed

lemma dev_ioctl_all_transient:
  "\<forall>t \<in> set (ioctl_rets k). transient t \<Longrightarrow> dev_ioctl k f req arg = Inl Script_End"
proof (induction "ioctl_rets k" arbitrary: k arg)
  case Nil
  then show ?case by (simp add: dev_ioctl_Nil)
next
  case (Cons t ts)
  from Cons.hyps(2) [symmetric] Cons.prems
  have "dev_ioctl k f req arg =
      dev_ioctl (k\<lparr>ioctl_rets := ts, calls := calls k @ [attempt f req arg t]\<rparr>) f req
        (write_back arg (wr t))"
    by (simp add: dev_ioctl_transient)
  also have "\<dots> = Inl Script_End"
    using Cons.hyps(2) [symmetric] Cons.prems by (intro Cons.hyps(1)) simp_all
  finally show ?case .
qed

text \<open>
  C7. The wrapper repeats the control operation as long as it fails with EINTR or
  EAGAIN: on a script whose first answers \<open>pre\<close> are all such failures and whose next
  answer \<open>r\<close> is not, it makes exactly one call per answer of \<open>pre\<close> and one more, each
  through the same argument pointer, leaves the rest of the script unread, and returns
  true when \<open>r\<close> is a success and false when \<open>r\<close> is any other failure. As long as every
  answer is such a failure it does not return.
\<close>

theorem dev_ioctl_retries:
  "(ioctl_rets k = pre @ r # rest \<and> (\<forall>t \<in> set pre. transient t) \<and> \<not> transient r \<longrightarrow>
      dev_ioctl k f req arg =
        Inr (0 \<le> rc r, written arg (pre @ [r]),
             k\<lparr>ioctl_rets := rest,
               calls := calls k @ attempts f req arg (pre @ [r])\<rparr>) \<and>
      length (attempts f req arg (pre @ [r])) = length pre + 1) \<and>
   ((\<forall>t \<in> set (ioctl_rets k). transient t) \<longrightarrow>
      dev_ioctl k f req arg = Inl Script_End)"
  using dev_ioctl_script [of k pre r rest f req arg] dev_ioctl_all_transient [of k f req arg]
  by simp

theorem dev_ioctl_retries_witness:
  "dev_ioctl
     (world0\<lparr>ioctl_rets := [ret (- 1) EINTR None, ret (- 1) EAGAIN None,
                             ret 0 0 (Some (AType 7)), ret 0 0 None]\<rparr>)
     3 VIDIOC_STREAMON (AType 1) =
     Inr (True, AType 7,
          world0\<lparr>ioctl_rets := [ret 0 0 None],
            calls := [Ioctl 3 VIDIOC_STREAMON (AType 1) (AType 1) (- 1) EINTR,
                      Ioctl 3 VIDIOC_STREAMON (AType 1) (AType 1) (- 1) EAGAIN,
                      Ioctl 3 VIDIOC_STREAMON (AType 1) (AType 7) 0 0]\<rparr>) \<and>
   dev_ioctl
     (world0\<lparr>ioctl_rets := [ret (- 1) EAGAIN (Some (AType 5)), ret (- 1) EINVAL None,
                             ret 0 0 None]\<rparr>)
     3 VIDIOC_STREAMON (AType 1) =
     Inr (False, AType 5,
          world0\<lparr>ioctl_rets := [ret 0 0 None],
            calls := [Ioctl 3 VIDIOC_STREAMON (AType 1) (AType 5) (- 1) EAGAIN,
                      Ioctl 3 VIDIOC_STREAMON (AType 5) (AType 5) (- 1) EINVAL]\<rparr>) \<and>
   dev_ioctl
     (world0\<lparr>ioctl_rets := [ret (- 1) EINTR None, ret (- 1) EAGAIN None]\<rparr>)
     3 VIDIOC_STREAMON (AType 1) = Inl Script_End"
proof (intro conjI)
  show "dev_ioctl
     (world0\<lparr>ioctl_rets := [ret (- 1) EINTR None, ret (- 1) EAGAIN None,
                             ret 0 0 (Some (AType 7)), ret 0 0 None]\<rparr>)
     3 VIDIOC_STREAMON (AType 1) =
     Inr (True, AType 7,
          world0\<lparr>ioctl_rets := [ret 0 0 None],
            calls := [Ioctl 3 VIDIOC_STREAMON (AType 1) (AType 1) (- 1) EINTR,
                      Ioctl 3 VIDIOC_STREAMON (AType 1) (AType 1) (- 1) EAGAIN,
                      Ioctl 3 VIDIOC_STREAMON (AType 1) (AType 7) 0 0]\<rparr>)"
    using dev_ioctl_retries
      [of "world0\<lparr>ioctl_rets := [ret (- 1) EINTR None, ret (- 1) EAGAIN None,
                                   ret 0 0 (Some (AType 7)), ret 0 0 None]\<rparr>"
          "[ret (- 1) EINTR None, ret (- 1) EAGAIN None]" "ret 0 0 (Some (AType 7))"
          "[ret 0 0 None]" 3 VIDIOC_STREAMON "AType 1"]
    by (simp add: world0_def ret_def transient_def attempt_def)
  show "dev_ioctl
     (world0\<lparr>ioctl_rets := [ret (- 1) EAGAIN (Some (AType 5)), ret (- 1) EINVAL None,
                             ret 0 0 None]\<rparr>)
     3 VIDIOC_STREAMON (AType 1) =
     Inr (False, AType 5,
          world0\<lparr>ioctl_rets := [ret 0 0 None],
            calls := [Ioctl 3 VIDIOC_STREAMON (AType 1) (AType 5) (- 1) EAGAIN,
                      Ioctl 3 VIDIOC_STREAMON (AType 5) (AType 5) (- 1) EINVAL]\<rparr>)"
    using dev_ioctl_retries
      [of "world0\<lparr>ioctl_rets := [ret (- 1) EAGAIN (Some (AType 5)), ret (- 1) EINVAL None,
                                   ret 0 0 None]\<rparr>"
          "[ret (- 1) EAGAIN (Some (AType 5))]" "ret (- 1) EINVAL None"
          "[ret 0 0 None]" 3 VIDIOC_STREAMON "AType 1"]
    by (simp add: world0_def ret_def transient_def attempt_def EINVAL_def EINTR_def EAGAIN_def)
  show "dev_ioctl
     (world0\<lparr>ioctl_rets := [ret (- 1) EINTR None, ret (- 1) EAGAIN None]\<rparr>)
     3 VIDIOC_STREAMON (AType 1) = Inl Script_End"
    using dev_ioctl_retries
      [of "world0\<lparr>ioctl_rets := [ret (- 1) EINTR None, ret (- 1) EAGAIN None]\<rparr>"
          "[]" "ret 0 0 None" "[]" 3 VIDIOC_STREAMON "AType 1"]
    by (simp add: world0_def ret_def transient_def)
qed

section \<open>Reading the log of a run\<close>

text \<open>\<open>extends P k k'\<close>: the world \<open>k'\<close> has the log of \<open>k\<close> followed by further calls,
  each of which satisfies \<open>P\<close>.\<close>

definition extends :: "(syscall \<Rightarrow> bool) \<Rightarrow> world \<Rightarrow> world \<Rightarrow> bool" where
  "extends P k k' \<longleftrightarrow> (\<exists>cs. calls k' = calls k @ cs \<and> list_all P cs)"

lemma extends_refl: "extends P k k"
  by (simp add: extends_def)

lemma extends_trans: "extends P k k1 \<Longrightarrow> extends P k1 k2 \<Longrightarrow> extends P k k2"
  by (auto simp: extends_def)

lemma extends_mono: "extends P k k' \<Longrightarrow> (\<And>c. P c \<Longrightarrow> Q c) \<Longrightarrow> extends Q k k'"
  by (auto simp: extends_def list_all_iff)

lemma dev_ioctl_cases:
  assumes "dev_ioctl k f req arg = Inr (ok, a, k')"
  obtains pre r rest where
    "ioctl_rets k = pre @ r # rest" "list_all transient pre" "\<not> transient r"
    "ok = (0 \<le> rc r)" "a = written arg (pre @ [r])"
    "k' = k\<lparr>ioctl_rets := rest, calls := calls k @ attempts f req arg (pre @ [r])\<rparr>"
proof -
  have "\<exists>pre r rest. ioctl_rets k = pre @ r # rest \<and> list_all transient pre \<and> \<not> transient r"
    using assms
  proof (induction "ioctl_rets k" arbitrary: k arg)
    case Nil
    then show ?case by (simp add: dev_ioctl_Nil)
  next
    case (Cons t ts)
    show ?case
    proof (cases "transient t")
      case True
      let ?k = "k\<lparr>ioctl_rets := ts, calls := calls k @ [attempt f req arg t]\<rparr>"
      have "dev_ioctl ?k f req (write_back arg (wr t)) = Inr (ok, a, k')"
        using Cons.prems Cons.hyps(2) True by (simp add: dev_ioctl_transient [of k t ts])
      with Cons.hyps(1) [of ?k "write_back arg (wr t)"] obtain pre r rest where
        "ts = pre @ r # rest" "list_all transient pre" "\<not> transient r"
        by auto
      with True Cons.hyps(2) [symmetric] have
        "ioctl_rets k = (t # pre) @ r # rest \<and> list_all transient (t # pre) \<and> \<not> transient r"
        by simp
      then show ?thesis by blast
    next
      case False
      with Cons.hyps(2) [symmetric] have
        "ioctl_rets k = [] @ t # ts \<and> list_all transient [] \<and> \<not> transient t"
        by simp
      then show ?thesis by blast
    qed
  qed
  then obtain pre r rest where
    s: "ioctl_rets k = pre @ r # rest" "list_all transient pre" "\<not> transient r"
    by blast
  from dev_ioctl_script [of k pre r rest f req arg] s assms
  have "ok = (0 \<le> rc r)" "a = written arg (pre @ [r])"
    "k' = k\<lparr>ioctl_rets := rest, calls := calls k @ attempts f req arg (pre @ [r])\<rparr>"
    by (simp_all add: list_all_iff)
  with s that show thesis by blast
qed


text \<open>A logged control operation that failed for good (not with EINTR or EAGAIN), the
  request of a logged control operation, and the calls that release a resource.\<close>

fun failed :: "syscall \<Rightarrow> bool" where
  "failed (Ioctl f req a a' r e) \<longleftrightarrow> r < 0 \<and> \<not> (r = - 1 \<and> (e = EINTR \<or> e = EAGAIN))"
| "failed _ \<longleftrightarrow> False"

fun req_of :: "syscall \<Rightarrow> request option" where
  "req_of (Ioctl f req a a' r e) = Some req"
| "req_of _ = None"

fun is_release :: "syscall \<Rightarrow> bool" where
  "is_release (Munmap a n) \<longleftrightarrow> True"
| "is_release (Close f) \<longleftrightarrow> True"
| "is_release _ \<longleftrightarrow> False"

text \<open>What a logged control operation was given and what it left in its argument.\<close>

fun arg_in :: "syscall \<Rightarrow> ioarg option" where
  "arg_in (Ioctl f req a a' r e) = Some a"
| "arg_in _ = None"




lemma dev_ioctl_calls_longer:
  "dev_ioctl k f req arg = Inr (ok, a, k') \<Longrightarrow> length (calls k) < length (calls k')"
  by (erule dev_ioctl_cases) simp

lemma extends_length: "extends P k k' \<Longrightarrow> length (calls k) \<le> length (calls k')"
  by (auto simp: extends_def)

lemma failed_attempt: "failed (attempt f req arg t) \<longleftrightarrow> rc t < 0 \<and> \<not> transient t"
  by (simp add: attempt_def transient_def)

lemma req_of_attempt: "req_of (attempt f req arg t) = Some req"
  by (simp add: attempt_def)

lemma is_release_attempt: "\<not> is_release (attempt f req arg t)"
  by (simp add: attempt_def)

lemma dev_ioctl_extends:
  assumes "dev_ioctl k f req arg = Inr (ok, a, k')"
    and "\<And>x t. transient t \<Longrightarrow> P (attempt f req x t)"
    and "\<And>x r. \<not> transient r \<Longrightarrow> ok = (0 \<le> rc r) \<Longrightarrow> P (attempt f req x r)"
  shows "extends P k k'"
proof -
  from assms(1) obtain pre r rest where
    *: "list_all transient pre" "\<not> transient r" "ok = (0 \<le> rc r)"
      "k' = k\<lparr>ioctl_rets := rest, calls := calls k @ attempts f req arg (pre @ [r])\<rparr>"
    by (rule dev_ioctl_cases)
  have "list_all P (attempts f req arg (pre @ [r]))"
    using * assms(2,3) by (intro attempts_all) (auto simp: list_all_iff)
  with * show ?thesis
    by (auto simp: extends_def)
qed

text \<open>What \<^verbatim>\<open>init_stream\<close> may log, given its result \<open>ok\<close> and the framerate \<open>fps\<close> it
  leaves in the parameters.\<close>

definition init_call :: "bool \<Rightarrow> u8 \<Rightarrow> syscall \<Rightarrow> bool" where
  "init_call ok fps c \<longleftrightarrow>
     \<not> is_release c \<and>
     (req_of c = Some VIDIOC_S_PARM \<longrightarrow> ok) \<and>
     (failed c \<longrightarrow> (if req_of c = Some VIDIOC_S_PARM then fps = 0 else \<not> ok))"

lemma init_call_attempt:
  "req \<noteq> VIDIOC_S_PARM \<Longrightarrow> ok \<longrightarrow> transient t \<or> 0 \<le> rc t \<Longrightarrow>
     init_call ok fps (attempt f req arg t)"
  by (auto simp: init_call_def failed_attempt req_of_attempt is_release_attempt)


lemma dev_ioctl_init_call:
  "dev_ioctl k f req arg = Inr (ok', a, k') \<Longrightarrow> req \<noteq> VIDIOC_S_PARM \<Longrightarrow> ok \<longrightarrow> ok' \<Longrightarrow>
     extends (init_call ok fps) k k'"
  by (erule dev_ioctl_extends) (auto intro!: init_call_attempt)

lemma calloc_extends:
  "calloc k n = Inr (r, k') \<Longrightarrow> P (Calloc n r) \<Longrightarrow> extends P k k'"
  by (auto simp: calloc_def extends_def split: list.splits)

lemma v4l2_mmap_extends:
  "v4l2_mmap k len f off = Inr (a, k') \<Longrightarrow> P (Mmap len f off a) \<Longrightarrow> extends P k k'"
  by (auto simp: v4l2_mmap_def extends_def Let_def split: list.splits)

section \<open>The runs of the loops and of \<^verbatim>\<open>init_stream\<close>\<close>

text \<open>Names for the terms of \<^verbatim>\<open>map_loop\<close> and \<^verbatim>\<open>init_stream\<close>.\<close>

abbreviation query_arg :: "device \<Rightarrow> v4l2_buffer" where
  "query_arg dev \<equiv> capture_buf\<lparr>buf_index := ucast (bufcnt (dev_frame dev))\<rparr>"

abbreviation stored :: "device \<Rightarrow> ioarg \<Rightarrow> addr \<Rightarrow> device" where
  "stored dev a p \<equiv>
     dev\<lparr>dev_frame := (dev_frame dev)
       \<lparr>frm_buf := (frm_buf (dev_frame dev))
          [unat (bufcnt (dev_frame dev)) :=
             \<lparr>bv_data = p, bv_size = buf_length (the_buf a (query_arg dev))\<rparr>]\<rparr>\<rparr>"

abbreviation advanced :: "device \<Rightarrow> device" where
  "advanced dev \<equiv> dev\<lparr>dev_frame := (dev_frame dev)\<lparr>bufcnt := bufcnt (dev_frame dev) + 1\<rparr>\<rparr>"

lemma map_loop_cases [consumes 1, case_names finished query_failed map_failed step]:
  assumes "map_loop k dev cnt = Inr (ok, dev', k')"
  obtains
    "\<not> ucast (bufcnt (dev_frame dev)) < cnt" "ok" "dev' = dev" "k' = k"
  | a where "ucast (bufcnt (dev_frame dev)) < cnt"
      "dev_ioctl k (fd dev) VIDIOC_QUERYBUF (ABuf (query_arg dev)) = Inr (False, a, k')"
      "\<not> ok" "dev' = dev"
  | a kq where "ucast (bufcnt (dev_frame dev)) < cnt"
      "dev_ioctl k (fd dev) VIDIOC_QUERYBUF (ABuf (query_arg dev)) = Inr (True, a, kq)"
      "unat (bufcnt (dev_frame dev)) < length (frm_buf (dev_frame dev))"
      "v4l2_mmap kq (buf_length (the_buf a (query_arg dev))) (fd dev)
         (buf_offset (the_buf a (query_arg dev))) = Inr (MAP_FAILED, k')"
      "\<not> ok" "dev' = stored dev a MAP_FAILED"
  | a kq p km where "ucast (bufcnt (dev_frame dev)) < cnt"
      "dev_ioctl k (fd dev) VIDIOC_QUERYBUF (ABuf (query_arg dev)) = Inr (True, a, kq)"
      "unat (bufcnt (dev_frame dev)) < length (frm_buf (dev_frame dev))"
      "v4l2_mmap kq (buf_length (the_buf a (query_arg dev))) (fd dev)
         (buf_offset (the_buf a (query_arg dev))) = Inr (p, km)"
      "p \<noteq> MAP_FAILED"
      "map_loop km (advanced (stored dev a p)) cnt = Inr (ok, dev', k')"
  using assms
  by (subst (asm) map_loop.simps)
     (auto simp: Let_def split: if_splits sum.splits prod.splits)

lemma map_loop_shorter:
  assumes "dev_ioctl k f req arg = Inr (ok, a, kq)" "v4l2_mmap kq len f' off = Inr (p, km)"
  shows "length (ioctl_rets km) < length (ioctl_rets k)"
  using dev_ioctl_shorter [OF assms(1)] v4l2_mmap_ioctl_rets [OF assms(2)] by simp

lemma map_loop_result_induct [consumes 1, case_names finished query_failed map_failed step]:
  assumes run: "map_loop k dev cnt = Inr (ok, dev', k')"
    and dn: "\<And>k dev. \<not> ucast (bufcnt (dev_frame dev)) < cnt \<Longrightarrow> P k dev True dev k"
    and qf: "\<And>k dev a k'. ucast (bufcnt (dev_frame dev)) < cnt \<Longrightarrow>
      dev_ioctl k (fd dev) VIDIOC_QUERYBUF (ABuf (query_arg dev)) = Inr (False, a, k') \<Longrightarrow>
      P k dev False dev k'"
    and mf: "\<And>k dev a kq k'. ucast (bufcnt (dev_frame dev)) < cnt \<Longrightarrow>
      dev_ioctl k (fd dev) VIDIOC_QUERYBUF (ABuf (query_arg dev)) = Inr (True, a, kq) \<Longrightarrow>
      unat (bufcnt (dev_frame dev)) < length (frm_buf (dev_frame dev)) \<Longrightarrow>
      v4l2_mmap kq (buf_length (the_buf a (query_arg dev))) (fd dev)
         (buf_offset (the_buf a (query_arg dev))) = Inr (MAP_FAILED, k') \<Longrightarrow>
      P k dev False (stored dev a MAP_FAILED) k'"
    and nx: "\<And>k dev a kq p km ok dev' k'. ucast (bufcnt (dev_frame dev)) < cnt \<Longrightarrow>
      dev_ioctl k (fd dev) VIDIOC_QUERYBUF (ABuf (query_arg dev)) = Inr (True, a, kq) \<Longrightarrow>
      unat (bufcnt (dev_frame dev)) < length (frm_buf (dev_frame dev)) \<Longrightarrow>
      v4l2_mmap kq (buf_length (the_buf a (query_arg dev))) (fd dev)
         (buf_offset (the_buf a (query_arg dev))) = Inr (p, km) \<Longrightarrow>
      p \<noteq> MAP_FAILED \<Longrightarrow>
      map_loop km (advanced (stored dev a p)) cnt = Inr (ok, dev', k') \<Longrightarrow>
      P km (advanced (stored dev a p)) ok dev' k' \<Longrightarrow> P k dev ok dev' k'"
  shows "P k dev ok dev' k'"
  using run
proof (induction "length (ioctl_rets k)" arbitrary: k dev rule: less_induct)
  case less
  from less.prems show ?case
  proof (cases rule: map_loop_cases)
    case finished
    then show ?thesis using dn by simp
  next
    case (query_failed a)
    then show ?thesis using qf by simp
  next
    case (map_failed a kq)
    then show ?thesis using mf by simp
  next
    case (step a kq p km)
    have ih: "P km (advanced (stored dev a p)) ok dev' k'"
      using map_loop_shorter [OF step(2,4)] step(6) by (rule less.hyps)
    show ?thesis by (rule nx [OF step(1-6) ih])
  qed
qed

lemma map_loop_init_call:
  assumes "map_loop k dev cnt = Inr (ok', dev', k')" "ok \<longrightarrow> ok'"
  shows "extends (init_call ok fps) k k'"
  using assms
proof (induction rule: map_loop_result_induct)
  case (finished k dev)
  show ?case by (rule extends_refl)
next
  case (query_failed k dev a k')
  then show ?case by (intro dev_ioctl_init_call [OF query_failed(2)]) simp_all
next
  case (map_failed k dev a kq k')
  have "extends (init_call ok fps) k kq"
    using map_failed by (intro dev_ioctl_init_call [OF map_failed(2)]) simp_all
  moreover have "extends (init_call ok fps) kq k'"
    by (rule v4l2_mmap_extends [OF map_failed(4)]) (simp add: init_call_def)
  ultimately show ?case by (rule extends_trans)
next
  case (step k dev a kq p km ok' dev' k')
  have "extends (init_call ok fps) k kq"
    using step by (intro dev_ioctl_init_call [OF step(2)]) simp_all
  moreover have "extends (init_call ok fps) kq km"
    by (rule v4l2_mmap_extends [OF step(4)]) (simp add: init_call_def)
  ultimately show ?case using step(7) [OF step(8)] by (blast intro: extends_trans)
qed


lemma queue_loop_cases [consumes 1, case_names finished failed step]:
  assumes "queue_loop k dev i = Inr (ok, k')"
  obtains
    "\<not> i < bufcnt (dev_frame dev)" "ok" "k' = k"
  | a where "i < bufcnt (dev_frame dev)"
      "dev_ioctl k (fd dev) VIDIOC_QBUF (ABuf (capture_buf\<lparr>buf_index := ucast i\<rparr>))
         = Inr (False, a, k')" "\<not> ok"
  | a k1 where "i < bufcnt (dev_frame dev)"
      "dev_ioctl k (fd dev) VIDIOC_QBUF (ABuf (capture_buf\<lparr>buf_index := ucast i\<rparr>))
         = Inr (True, a, k1)"
      "queue_loop k1 dev (i + 1) = Inr (ok, k')"
  using assms
  by (subst (asm) queue_loop.simps)
     (auto simp: Let_def split: if_splits sum.splits prod.splits)

lemma queue_loop_result_induct [consumes 1, case_names finished failed step]:
  assumes run: "queue_loop k dev i = Inr (ok, k')"
    and dn: "\<And>k i. \<not> i < bufcnt (dev_frame dev) \<Longrightarrow> P k i True k"
    and fl: "\<And>k i a k'. i < bufcnt (dev_frame dev) \<Longrightarrow>
      dev_ioctl k (fd dev) VIDIOC_QBUF (ABuf (capture_buf\<lparr>buf_index := ucast i\<rparr>))
         = Inr (False, a, k') \<Longrightarrow> P k i False k'"
    and nx: "\<And>k i a k1 ok k'. i < bufcnt (dev_frame dev) \<Longrightarrow>
      dev_ioctl k (fd dev) VIDIOC_QBUF (ABuf (capture_buf\<lparr>buf_index := ucast i\<rparr>))
         = Inr (True, a, k1) \<Longrightarrow>
      queue_loop k1 dev (i + 1) = Inr (ok, k') \<Longrightarrow> P k1 (i + 1) ok k' \<Longrightarrow> P k i ok k'"
  shows "P k i ok k'"
  using run
proof (induction "length (ioctl_rets k)" arbitrary: k i rule: less_induct)
  case less
  from less.prems show ?case
  proof (cases rule: queue_loop_cases)
    case finished
    then show ?thesis using dn by simp
  next
    case (failed a)
    then show ?thesis using fl by simp
  next
    case (step a k1)
    have ih: "P k1 (i + 1) ok k'"
      using dev_ioctl_shorter [OF step(2)] step(3) by (rule less.hyps)
    show ?thesis by (rule nx [OF step(1-3) ih])
  qed
qed

lemma queue_loop_init_call:
  assumes "queue_loop k dev i = Inr (ok', k')" "ok \<longrightarrow> ok'"
  shows "extends (init_call ok fps) k k'"
  using assms
proof (induction rule: queue_loop_result_induct)
  case (finished k i)
  show ?case by (rule extends_refl)
next
  case (failed k i a k')
  then show ?case by (intro dev_ioctl_init_call [OF failed(2)]) simp_all
next
  case (step k i a k1 ok' k')
  have "extends (init_call ok fps) k k1"
    using step by (intro dev_ioctl_init_call [OF step(2)]) simp_all
  then show ?case using step(4) [OF step(5)] by (rule extends_trans)
qed

lemma set_framerate_cases [consumes 1, case_names failed returned]:
  assumes "set_framerate k dev fps = Inr (fps', k')"
  obtains
    a where "dev_ioctl k (fd dev) VIDIOC_S_PARM
        (AParm \<lparr>parm_type = V4L2_BUF_TYPE_VIDEO_CAPTURE, parm_numerator = 1,
                parm_denominator = ucast fps\<rparr>) = Inr (False, a, k')" "fps' = 0"
  | a where "dev_ioctl k (fd dev) VIDIOC_S_PARM
        (AParm \<lparr>parm_type = V4L2_BUF_TYPE_VIDEO_CAPTURE, parm_numerator = 1,
                parm_denominator = ucast fps\<rparr>) = Inr (True, a, k')"
      "fps' = ucast (parm_denominator (the_parm a
         \<lparr>parm_type = V4L2_BUF_TYPE_VIDEO_CAPTURE, parm_numerator = 1,
          parm_denominator = ucast fps\<rparr>))"
  using assms unfolding set_framerate_def
  by (auto simp: Let_def split: if_splits sum.splits prod.splits)

lemma set_framerate_init_call:
  assumes "set_framerate k dev fps = Inr (fps', k')"
  shows "extends (init_call True fps') k k'"
  using assms
proof (cases rule: set_framerate_cases)
  case (failed a)
  show ?thesis
    by (rule dev_ioctl_extends [OF failed(1)])
       (auto simp: init_call_def failed_attempt req_of_attempt is_release_attempt failed(2))
next
  case (returned a)
  show ?thesis
    by (rule dev_ioctl_extends [OF returned(1)])
       (auto simp: init_call_def failed_attempt req_of_attempt is_release_attempt)
qed

abbreviation fmt_arg :: "params \<Rightarrow> v4l2_format" where
  "fmt_arg p \<equiv> \<lparr>fmt_type = V4L2_BUF_TYPE_VIDEO_CAPTURE, pix_width = ucast (par_w p),
                 pix_height = ucast (par_h p), pix_pixelformat = par_fmt p,
                 pix_field = V4L2_FIELD_ANY\<rparr>"

abbreviation req_arg :: v4l2_requestbuffers where
  "req_arg \<equiv> \<lparr>req_count = ucast BUFFERS_CNT, req_type = V4L2_BUF_TYPE_VIDEO_CAPTURE,
               req_memory = V4L2_MEMORY_MMAP\<rparr>"

abbreviation sized :: "device \<Rightarrow> v4l2_format \<Rightarrow> device" where
  "sized dev f \<equiv> dev\<lparr>dev_frame := (dev_frame dev)
      \<lparr>frm_w := ucast (pix_width f), frm_h := ucast (pix_height f)\<rparr>\<rparr>"

abbreviation negotiated :: "params \<Rightarrow> v4l2_format \<Rightarrow> params" where
  "negotiated p f \<equiv> p\<lparr>par_w := ucast (pix_width f), par_h := ucast (pix_height f)\<rparr>"

abbreviation allocated :: "device \<Rightarrow> u32 \<Rightarrow> device" where
  "allocated dev n \<equiv> dev\<lparr>dev_frame := (dev_frame dev)
      \<lparr>frm_buf := replicate (unat n) \<lparr>bv_data = 0, bv_size = 0\<rparr>, bufcnt := 0\<rparr>\<rparr>"

lemma init_stream_cases [consumes 1, case_names fmt_failed fmt_mismatch req_failed
    calloc_failed map_failed queue_failed success]:
  assumes "init_stream k dev p = Inr (ok, dev', p', k')"
  obtains
    a where "dev_ioctl k (fd dev) VIDIOC_S_FMT (AFmt (fmt_arg p)) = Inr (False, a, k')"
      "\<not> ok" "dev' = dev" "p' = p"
  | a where "dev_ioctl k (fd dev) VIDIOC_S_FMT (AFmt (fmt_arg p)) = Inr (True, a, k')"
      "pix_pixelformat (the_fmt a (fmt_arg p)) \<noteq> par_fmt p"
      "\<not> ok" "dev' = dev" "p' = p"
  | a k1 a2 where "dev_ioctl k (fd dev) VIDIOC_S_FMT (AFmt (fmt_arg p)) = Inr (True, a, k1)"
      "pix_pixelformat (the_fmt a (fmt_arg p)) = par_fmt p"
      "dev_ioctl k1 (fd dev) VIDIOC_REQBUFS (AReq req_arg) = Inr (False, a2, k')"
      "\<not> ok" "dev' = sized dev (the_fmt a (fmt_arg p))"
      "p' = negotiated p (the_fmt a (fmt_arg p))"
  | a k1 a2 k2 where "dev_ioctl k (fd dev) VIDIOC_S_FMT (AFmt (fmt_arg p)) = Inr (True, a, k1)"
      "pix_pixelformat (the_fmt a (fmt_arg p)) = par_fmt p"
      "dev_ioctl k1 (fd dev) VIDIOC_REQBUFS (AReq req_arg) = Inr (True, a2, k2)"
      "calloc k2 (req_count (the_req a2 req_arg)) = Inr (False, k')"
      "\<not> ok" "p' = negotiated p (the_fmt a (fmt_arg p))"
  | a k1 a2 k2 k3 where
      "dev_ioctl k (fd dev) VIDIOC_S_FMT (AFmt (fmt_arg p)) = Inr (True, a, k1)"
      "pix_pixelformat (the_fmt a (fmt_arg p)) = par_fmt p"
      "dev_ioctl k1 (fd dev) VIDIOC_REQBUFS (AReq req_arg) = Inr (True, a2, k2)"
      "calloc k2 (req_count (the_req a2 req_arg)) = Inr (True, k3)"
      "map_loop k3 (allocated (sized dev (the_fmt a (fmt_arg p)))
           (req_count (the_req a2 req_arg))) (req_count (the_req a2 req_arg))
         = Inr (False, dev', k')"
      "\<not> ok" "p' = negotiated p (the_fmt a (fmt_arg p))"
  | a k1 a2 k2 k3 k4 where
      "dev_ioctl k (fd dev) VIDIOC_S_FMT (AFmt (fmt_arg p)) = Inr (True, a, k1)"
      "pix_pixelformat (the_fmt a (fmt_arg p)) = par_fmt p"
      "dev_ioctl k1 (fd dev) VIDIOC_REQBUFS (AReq req_arg) = Inr (True, a2, k2)"
      "calloc k2 (req_count (the_req a2 req_arg)) = Inr (True, k3)"
      "map_loop k3 (allocated (sized dev (the_fmt a (fmt_arg p)))
           (req_count (the_req a2 req_arg))) (req_count (the_req a2 req_arg))
         = Inr (True, dev', k4)"
      "queue_loop k4 dev' 0 = Inr (False, k')"
      "\<not> ok" "p' = negotiated p (the_fmt a (fmt_arg p))"
  | a k1 a2 k2 k3 k4 k5 fps where
      "dev_ioctl k (fd dev) VIDIOC_S_FMT (AFmt (fmt_arg p)) = Inr (True, a, k1)"
      "pix_pixelformat (the_fmt a (fmt_arg p)) = par_fmt p"
      "dev_ioctl k1 (fd dev) VIDIOC_REQBUFS (AReq req_arg) = Inr (True, a2, k2)"
      "calloc k2 (req_count (the_req a2 req_arg)) = Inr (True, k3)"
      "map_loop k3 (allocated (sized dev (the_fmt a (fmt_arg p)))
           (req_count (the_req a2 req_arg))) (req_count (the_req a2 req_arg))
         = Inr (True, dev', k4)"
      "queue_loop k4 dev' 0 = Inr (True, k5)"
      "set_framerate k5 dev' (par_fps p) = Inr (fps, k')"
      "ok" "p' = (negotiated p (the_fmt a (fmt_arg p)))\<lparr>par_fps := fps\<rparr>"
  using assms unfolding init_stream_def
  by (auto simp: Let_def split: if_splits sum.splits prod.splits)


lemma init_call_plain:
  "req_of c = None \<Longrightarrow> \<not> is_release c \<Longrightarrow> init_call ok fps c"
  by (cases c) (simp_all add: init_call_def)

lemma init_stream_init_call:
  assumes "init_stream k dev p = Inr (ok, dev', p', k')"
  shows "extends (init_call ok (par_fps p')) k k'"
  using assms
proof (cases rule: init_stream_cases)
  case (fmt_failed a)
  then show ?thesis by (intro dev_ioctl_init_call [OF fmt_failed(1)]) simp_all
next
  case (fmt_mismatch a)
  then show ?thesis by (intro dev_ioctl_init_call [OF fmt_mismatch(1)]) simp_all
next
  case (req_failed a k1 a2)
  have "extends (init_call ok (par_fps p')) k k1"
    using req_failed by (intro dev_ioctl_init_call [OF req_failed(1)]) simp_all
  moreover have "extends (init_call ok (par_fps p')) k1 k'"
    using req_failed by (intro dev_ioctl_init_call [OF req_failed(3)]) simp_all
  ultimately show ?thesis by (rule extends_trans)
next
  case (calloc_failed a k1 a2 k2)
  have "extends (init_call ok (par_fps p')) k k1"
    using calloc_failed by (intro dev_ioctl_init_call [OF calloc_failed(1)]) simp_all
  moreover have "extends (init_call ok (par_fps p')) k1 k2"
    using calloc_failed by (intro dev_ioctl_init_call [OF calloc_failed(3)]) simp_all
  moreover have "extends (init_call ok (par_fps p')) k2 k'"
    by (rule calloc_extends [OF calloc_failed(4)]) (simp add: init_call_plain)
  ultimately show ?thesis by (blast intro: extends_trans)
next
  case (map_failed a k1 a2 k2 k3)
  have "extends (init_call ok (par_fps p')) k k1"
    using map_failed by (intro dev_ioctl_init_call [OF map_failed(1)]) simp_all
  moreover have "extends (init_call ok (par_fps p')) k1 k2"
    using map_failed by (intro dev_ioctl_init_call [OF map_failed(3)]) simp_all
  moreover have "extends (init_call ok (par_fps p')) k2 k3"
    by (rule calloc_extends [OF map_failed(4)]) (simp add: init_call_plain)
  moreover have "extends (init_call ok (par_fps p')) k3 k'"
    using map_failed by (intro map_loop_init_call [OF map_failed(5)]) simp
  ultimately show ?thesis by (blast intro: extends_trans)
next
  case (queue_failed a k1 a2 k2 k3 k4)
  have "extends (init_call ok (par_fps p')) k k1"
    using queue_failed by (intro dev_ioctl_init_call [OF queue_failed(1)]) simp_all
  moreover have "extends (init_call ok (par_fps p')) k1 k2"
    using queue_failed by (intro dev_ioctl_init_call [OF queue_failed(3)]) simp_all
  moreover have "extends (init_call ok (par_fps p')) k2 k3"
    by (rule calloc_extends [OF queue_failed(4)]) (simp add: init_call_plain)
  moreover have "extends (init_call ok (par_fps p')) k3 k4"
    using queue_failed by (intro map_loop_init_call [OF queue_failed(5)]) simp
  moreover have "extends (init_call ok (par_fps p')) k4 k'"
    using queue_failed by (intro queue_loop_init_call [OF queue_failed(6)]) simp
  ultimately show ?thesis by (blast intro: extends_trans)
next
  case (success a k1 a2 k2 k3 k4 k5 fps)
  have "extends (init_call ok (par_fps p')) k k1"
    using success by (intro dev_ioctl_init_call [OF success(1)]) simp_all
  moreover have "extends (init_call ok (par_fps p')) k1 k2"
    using success by (intro dev_ioctl_init_call [OF success(3)]) simp_all
  moreover have "extends (init_call ok (par_fps p')) k2 k3"
    by (rule calloc_extends [OF success(4)]) (simp add: init_call_plain)
  moreover have "extends (init_call ok (par_fps p')) k3 k4"
    using success by (intro map_loop_init_call [OF success(5)]) simp
  moreover have "extends (init_call ok (par_fps p')) k4 k5"
    using success by (intro queue_loop_init_call [OF success(6)]) simp
  moreover have "extends (init_call ok (par_fps p')) k5 k'"
    using set_framerate_init_call [OF success(7)] success(8,9) by simp
  ultimately show ?thesis by (blast intro: extends_trans)
qed

lemma open_camera_extends:
  assumes "open_camera k path = Inr (f, k')"
    and "\<And>r. P (Stat path r)" and "\<And>r. P (Open path r)"
  shows "extends P k k'"
  using assms unfolding open_camera_def stat_def v4l2_open_def extends_def
  by (auto split: list.splits if_splits prod.splits)

lemma create_stream_init_call:
  assumes "create_stream k path p raw = Inr (res, p', k')"
  shows "extends (init_call (res \<noteq> None) (par_fps p')) k k'"
proof (cases path)
  case None
  with assms show ?thesis by (simp add: create_stream_def extends_refl)
next
  case (Some pth)
  from assms Some obtain f k1 where oc: "open_camera k pth = Inr (f, k1)"
    by (auto simp: create_stream_def split: sum.splits)
  have e1: "extends (init_call (res \<noteq> None) (par_fps p')) k k1"
    by (rule open_camera_extends [OF oc]) (simp_all add: init_call_plain)
  show ?thesis
  proof (cases "f < 0")
    case True
    with assms Some oc have "k' = k1" by (simp add: create_stream_def)
    with e1 show ?thesis by simp
  next
    case False
    with assms Some oc obtain ok dev where
      i: "init_stream k1 (device_new f raw) p = Inr (ok, dev, p', k')" and "ok = (res \<noteq> None)"
      by (auto simp: create_stream_def split: sum.splits if_splits)
    with init_stream_init_call [OF i] e1 show ?thesis
      by (blast intro: extends_trans)
  qed
qed

text \<open>The calls made between two worlds of one run.\<close>

definition issued :: "world \<Rightarrow> world \<Rightarrow> syscall list" where
  "issued k k' = drop (length (calls k)) (calls k')"

lemma extends_issued:
  "extends P k k' \<Longrightarrow> calls k' = calls k @ issued k k' \<and> list_all P (issued k k')"
  by (auto simp: extends_def issued_def)




section \<open>Teardown, the buffer pool and the frame cycle\<close>

text \<open>The call that unmaps a buffer descriptor.\<close>

definition unmap_call :: "buffer_view \<Rightarrow> syscall" where
  "unmap_call b = Munmap (bv_data b) (bv_size b)"

lemma unmap_loop_calls:
  assumes "unat (bufcnt (dev_frame dev)) \<le> length (frm_buf (dev_frame dev))"
    and "i \<le> bufcnt (dev_frame dev)"
  shows "unmap_loop k dev i =
     Inr (k\<lparr>calls := calls k @ map unmap_call
        (drop (unat i) (take (unat (bufcnt (dev_frame dev))) (frm_buf (dev_frame dev))))\<rparr>)"
  using assms
proof (induction k dev i rule: unmap_loop.induct)
  case (1 k dev i)
  let ?n = "unat (bufcnt (dev_frame dev))"
  let ?bs = "frm_buf (dev_frame dev)"
  show ?case
  proof (cases "i < bufcnt (dev_frame dev)")
    case False
    with "1.prems" have "i = bufcnt (dev_frame dev)" by simp
    then show ?thesis by (subst unmap_loop.simps) simp
  next
    case True
    then have lt: "unat i < ?n" by (simp add: word_less_nat_alt)
    with "1.prems" have inb: "unat i < length ?bs" by simp
    have suc: "unat (i + 1) = Suc (unat i)" using True by (rule u8_succ)
    have le: "i + 1 \<le> bufcnt (dev_frame dev)"
      using lt suc by (simp add: word_le_nat_alt)
    have "drop (unat i) (take ?n ?bs) = ?bs ! unat i # drop (Suc (unat i)) (take ?n ?bs)"
      using lt inb by (simp add: Cons_nth_drop_Suc [symmetric])
    then show ?thesis
      using True inb "1.IH" [OF True inb "1.prems"(1) le] suc
      by (subst unmap_loop.simps) (simp add: v4l2_munmap_def unmap_call_def)
  qed
qed

lemma device_dtor_calls:
  assumes "unat (bufcnt (dev_frame dev)) \<le> length (frm_buf (dev_frame dev))"
  shows "device_dtor k dev =
     Inr (k\<lparr>calls := calls k @ map unmap_call
        (take (unat (bufcnt (dev_frame dev))) (frm_buf (dev_frame dev))) @ [Close (fd dev)]\<rparr>)"
  using unmap_loop_calls [OF assms, of 0 k]
  by (simp add: device_dtor_def v4l2_close_def)


text \<open>The descriptors of the mappings a log made (a mapping call that did not return
  \<^verbatim>\<open>MAP_FAILED\<close>, with the address it returned and the length it asked for), and the
  buffer counts the device granted in it (the count that a successful request-buffers
  operation left in its argument).\<close>

fun mapping_of :: "syscall \<Rightarrow> buffer_view list" where
  "mapping_of (Mmap len f off a) =
     (if a = MAP_FAILED then [] else [\<lparr>bv_data = a, bv_size = len\<rparr>])"
| "mapping_of _ = []"

definition mappings :: "syscall list \<Rightarrow> buffer_view list" where
  "mappings cs = concat (map mapping_of cs)"

fun granted_of :: "syscall \<Rightarrow> u32 list" where
  "granted_of (Ioctl f VIDIOC_REQBUFS a (AReq r) c e) = (if 0 \<le> c then [req_count r] else [])"
| "granted_of _ = []"

definition granted :: "syscall list \<Rightarrow> u32 list" where
  "granted cs = concat (map granted_of cs)"

lemma mappings_append [simp]: "mappings (xs @ ys) = mappings xs @ mappings ys"
  by (simp add: mappings_def)

lemma granted_append [simp]: "granted (xs @ ys) = granted xs @ granted ys"
  by (simp add: granted_def)

lemma mappings_Nil [simp]: "mappings [] = []"
  by (simp add: mappings_def)

lemma granted_Nil [simp]: "granted [] = []"
  by (simp add: granted_def)

lemma mappings_none: "list_all (\<lambda>c. mapping_of c = []) cs \<Longrightarrow> mappings cs = []"
  by (induction cs) (simp_all add: mappings_def)

lemma granted_none: "list_all (\<lambda>c. granted_of c = []) cs \<Longrightarrow> granted cs = []"
  by (induction cs) (simp_all add: granted_def)

text \<open>A call that neither maps a buffer nor grants a buffer count.\<close>

definition plain :: "syscall \<Rightarrow> bool" where
  "plain c \<longleftrightarrow> mapping_of c = [] \<and> granted_of c = []"

lemma extends_plain:
  assumes "extends plain k k'"
  shows "mappings (calls k') = mappings (calls k)" "granted (calls k') = granted (calls k)"
proof -
  from assms obtain cs where cs: "calls k' = calls k @ cs" "list_all plain cs"
    by (auto simp: extends_def)
  then have "list_all (\<lambda>c. mapping_of c = []) cs" "list_all (\<lambda>c. granted_of c = []) cs"
    by (simp_all add: list_all_iff plain_def)
  with cs show "mappings (calls k') = mappings (calls k)"
    "granted (calls k') = granted (calls k)"
    by (simp_all add: mappings_none granted_none)
qed

lemma plain_attempt: "req \<noteq> VIDIOC_REQBUFS \<Longrightarrow> plain (attempt f req arg t)"
  by (cases req) (simp_all add: plain_def attempt_def)

lemma dev_ioctl_plain:
  "dev_ioctl k f req arg = Inr (ok, a, k') \<Longrightarrow> req \<noteq> VIDIOC_REQBUFS \<Longrightarrow> extends plain k k'"
  by (erule dev_ioctl_extends) (simp_all add: plain_attempt)

lemma v4l2_mmap_calls:
  "v4l2_mmap k len f off = Inr (p, k') \<Longrightarrow> calls k' = calls k @ [Mmap len f off p]"
  by (auto simp: v4l2_mmap_def Let_def split: list.splits)

lemma v4l2_mmap_fresh:
  "v4l2_mmap k len f off = Inr (p, k') \<Longrightarrow> p \<noteq> MAP_FAILED \<Longrightarrow>
     len \<noteq> 0 \<and> list_all (apart \<lparr>bv_data = p, bv_size = len\<rparr>) (live (calls k))"
  by (auto simp: v4l2_mmap_def Let_def split: list.splits if_splits)

text \<open>The live mappings along a log without releases; regions that are each non-empty
  and apart from the live mappings and from the regions before them; regions that are
  pairwise apart.\<close>

lemma live_append: "live (xs @ ys) = foldl live_step (live xs) ys"
  by (simp add: live_def)

lemma live_step_mapping: "\<not> is_release c \<Longrightarrow> live_step bs c = bs @ mapping_of c"
  by (cases c) simp_all

lemma live_mappings:
  "list_all (\<lambda>c. \<not> is_release c) cs \<Longrightarrow> foldl live_step bs cs = bs @ mappings cs"
  by (induction cs arbitrary: bs) (simp_all add: live_step_mapping mappings_def)

lemma extends_live:
  assumes "extends (\<lambda>c. \<not> is_release c \<and> mapping_of c = []) k k'"
  shows "live (calls k') = live (calls k)"
proof -
  from assms obtain cs where cs: "calls k' = calls k @ cs"
    "list_all (\<lambda>c. \<not> is_release c \<and> mapping_of c = []) cs"
    by (auto simp: extends_def)
  then have "list_all (\<lambda>c. \<not> is_release c) cs" "list_all (\<lambda>c. mapping_of c = []) cs"
    by (simp_all add: list_all_iff)
  with cs(1) show ?thesis
    by (simp add: live_append live_mappings mappings_none)
qed

lemma dev_ioctl_live:
  "dev_ioctl k f req arg = Inr (ok, a, k') \<Longrightarrow> live (calls k') = live (calls k)"
  by (rule extends_live, erule dev_ioctl_extends) (simp_all add: attempt_def)

fun fresh_regions :: "buffer_view list \<Rightarrow> buffer_view list \<Rightarrow> bool" where
  "fresh_regions ls [] \<longleftrightarrow> True"
| "fresh_regions ls (b # bs) \<longleftrightarrow>
     bv_size b \<noteq> 0 \<and> list_all (apart b) ls \<and> fresh_regions (ls @ [b]) bs"

fun separate :: "buffer_view list \<Rightarrow> bool" where
  "separate [] \<longleftrightarrow> True"
| "separate (b # bs) \<longleftrightarrow> list_all (apart b) bs \<and> separate bs"

lemma apart_sym: "apart b c \<Longrightarrow> apart c b"
  by (auto simp: apart_def)

lemma fresh_regions_apart:
  "fresh_regions ls bs \<Longrightarrow> l \<in> set ls \<Longrightarrow> c \<in> set bs \<Longrightarrow> apart c l"
  by (induction bs arbitrary: ls) (auto simp: list_all_iff)

lemma fresh_regions_separate:
  "fresh_regions ls bs \<Longrightarrow> separate bs \<and> list_all (\<lambda>b. bv_size b \<noteq> 0) bs"
proof (induction bs arbitrary: ls)
  case Nil
  show ?case by simp
next
  case (Cons b bs)
  then have f: "fresh_regions (ls @ [b]) bs" and n: "bv_size b \<noteq> 0" by simp_all
  have "list_all (apart b) bs"
    using fresh_regions_apart [OF f, of b] by (auto simp: list_all_iff intro: apart_sym)
  with Cons.IH [OF f] n show ?case by simp
qed



lemma map_loop_regions:
  assumes "map_loop k dev cnt = Inr (ok, dev', k')" and "ok"
  shows "\<exists>bs. mappings (calls k') = mappings (calls k) @ bs \<and>
    live (calls k') = live (calls k) @ bs \<and> fresh_regions (live (calls k)) bs"
  using assms
proof (induction rule: map_loop_result_induct)
  case (finished k dev)
  show ?case by simp
next
  case (query_failed k dev a k')
  then show ?case by simp
next
  case (map_failed k dev a kq k')
  then show ?case by simp
next
  case (step k dev a kq p km ok dev' k')
  let ?v = "\<lparr>bv_data = p, bv_size = buf_length (the_buf a (query_arg dev))\<rparr>"
  from step(7) [OF step(8)] obtain bs where
    bs: "mappings (calls k') = mappings (calls km) @ bs"
      "live (calls k') = live (calls km) @ bs" "fresh_regions (live (calls km)) bs"
    by blast
  have q: "extends plain k kq" using step(2) by (rule dev_ioctl_plain) simp
  note lq = dev_ioctl_live [OF step(2)]
  have mm: "mappings (calls km) = mappings (calls k) @ [?v]"
    using extends_plain [OF q] v4l2_mmap_calls [OF step(4)] step(5)
    by (simp add: mappings_def)
  have lm: "live (calls km) = live (calls k) @ [?v]"
    using lq v4l2_mmap_calls [OF step(4)] step(5) by (simp add: live_append)
  have "fresh_regions (live (calls k)) (?v # bs)"
    using v4l2_mmap_fresh [OF step(4) step(5)] lq lm bs(3) by simp
  with bs mm lm show ?case
    by (intro exI [of _ "?v # bs"]) simp
qed


lemma u8_succ_le: "unat ((x :: u8) + 1) \<le> Suc (unat x)"
  by unat_arith

lemma u8_succ_255: "unat (x :: u8) < 255 \<Longrightarrow> unat (x + 1) = Suc (unat x)"
proof -
  assume "unat x < 255"
  then have "x < 255" by (simp add: word_less_nat_alt)
  then show ?thesis by (rule u8_succ)
qed

lemma map_loop_success:
  assumes "map_loop k dev cnt = Inr (ok, dev', k')"
    and "length (frm_buf (dev_frame dev)) = unat cnt"
    and "unat (bufcnt (dev_frame dev)) \<le> unat cnt"
    and "ok"
  shows "unat cnt < 256 \<and> unat (bufcnt (dev_frame dev')) = unat cnt \<and>
    length (frm_buf (dev_frame dev')) = unat cnt \<and>
    mappings (calls k') = mappings (calls k) @
       drop (unat (bufcnt (dev_frame dev))) (frm_buf (dev_frame dev')) \<and>
    take (unat (bufcnt (dev_frame dev))) (frm_buf (dev_frame dev')) =
       take (unat (bufcnt (dev_frame dev))) (frm_buf (dev_frame dev)) \<and>
    granted (calls k') = granted (calls k) \<and>
    fd dev' = fd dev \<and> frm_w (dev_frame dev') = frm_w (dev_frame dev) \<and>
    frm_h (dev_frame dev') = frm_h (dev_frame dev) \<and> dev_buf dev' = dev_buf dev"
  using assms
proof (induction rule: map_loop_result_induct)
  case (finished k dev)
  then have "unat (bufcnt (dev_frame dev)) = unat cnt"
    by (simp add: ucast_u8_less_u32)
  with u8_lt_256 [of "bufcnt (dev_frame dev)"] finished show ?case by simp
next
  case (query_failed k dev a k')
  then show ?case by simp
next
  case (map_failed k dev a kq k')
  then show ?case by simp
next
  case (step k dev a kq p km ok dev' k')
  let ?n = "unat (bufcnt (dev_frame dev))"
  let ?v = "\<lparr>bv_data = p, bv_size = buf_length (the_buf a (query_arg dev))\<rparr>"
  let ?d = "advanced (stored dev a p)"
  have n: "?n < unat cnt" using step(1) by (simp add: ucast_u8_less_u32)
  have len1: "length (frm_buf (dev_frame ?d)) = unat cnt" using step(8) by simp
  have le1: "unat (bufcnt (dev_frame ?d)) \<le> unat cnt"
    using n u8_succ_le [of "bufcnt (dev_frame dev)"] by simp
  note ih = step(7) [OF len1 le1 step(10)]
  from ih n have "?n < 255" by simp
  then have suc: "unat (bufcnt (dev_frame ?d)) = Suc ?n"
    by (simp add: u8_succ_255)
  have len': "length (frm_buf (dev_frame dev')) = unat cnt" using ih by simp
  have tk: "take (Suc ?n) (frm_buf (dev_frame dev')) =
      take (Suc ?n) ((frm_buf (dev_frame dev))[?n := ?v])"
    using ih suc by simp
  have "frm_buf (dev_frame dev') ! ?n = take (Suc ?n) (frm_buf (dev_frame dev')) ! ?n"
    by simp
  also have "\<dots> = ?v" using step(3) by (simp add: tk)
  finally have nth: "frm_buf (dev_frame dev') ! ?n = ?v" .
  have dr: "drop ?n (frm_buf (dev_frame dev')) = ?v # drop (Suc ?n) (frm_buf (dev_frame dev'))"
    using n len' nth by (simp add: Cons_nth_drop_Suc [symmetric])
  have "take ?n (frm_buf (dev_frame dev')) = take ?n (take (Suc ?n) (frm_buf (dev_frame dev')))"
    by (simp add: min_def)
  also have "\<dots> = take ?n (frm_buf (dev_frame dev))"
    by (simp add: tk min_def)
  finally have tk': "take ?n (frm_buf (dev_frame dev')) = take ?n (frm_buf (dev_frame dev))" .
  have q: "extends plain k kq" using step(2) by (rule dev_ioctl_plain) simp
  have mm: "mappings (calls km) = mappings (calls k) @ [?v]"
    "granted (calls km) = granted (calls k)"
    using extends_plain [OF q] v4l2_mmap_calls [OF step(4)] step(5)
    by (simp_all add: mappings_def granted_def)
  show ?case
    using ih suc dr tk' mm by simp
qed


lemma queue_loop_plain:
  assumes "queue_loop k dev i = Inr (ok, k')"
  shows "extends plain k k'"
  using assms
proof (induction rule: queue_loop_result_induct)
  case (finished k i)
  show ?case by (rule extends_refl)
next
  case (failed k i a k')
  then show ?case by (intro dev_ioctl_plain [OF failed(2)]) simp
next
  case (step k i a k1 ok k')
  have "extends plain k k1" by (rule dev_ioctl_plain [OF step(2)]) simp
  then show ?case using step(4) by (rule extends_trans)
qed

lemma set_framerate_plain:
  assumes "set_framerate k dev fps = Inr (fps', k')"
  shows "extends plain k k'"
  using assms
  by (cases rule: set_framerate_cases) (auto intro: dev_ioctl_plain)

lemma write_back_req: "\<exists>r. write_back (AReq x) w = AReq r"
proof (cases w)
  case None
  then show ?thesis by simp
next
  case (Some a)
  then show ?thesis by (cases a) simp_all
qed

lemma written_req: "\<exists>r. written (AReq x) rs = AReq r"
proof (induction rs arbitrary: x)
  case Nil
  show ?case by simp
next
  case (Cons t rs)
  obtain y where "write_back (AReq x) (wr t) = AReq y"
    using write_back_req by blast
  with Cons.IH [of y] show ?case by simp
qed

lemma granted_of_failure: "rc t < 0 \<Longrightarrow> granted_of (attempt f req x t) = []"
  by (cases req; cases "write_back x (wr t)") (simp_all add: attempt_def)

lemma reqbufs_granted:
  assumes "dev_ioctl k f VIDIOC_REQBUFS (AReq x) = Inr (True, a, k')"
  shows "granted (calls k') = granted (calls k) @ [req_count (the_req a x)]"
    and "mappings (calls k') = mappings (calls k)"
proof -
  from assms obtain pre r rest where
    *: "list_all transient pre" "\<not> transient r" "0 \<le> rc r"
      "a = written (AReq x) (pre @ [r])"
      "k' = k\<lparr>ioctl_rets := rest,
         calls := calls k @ attempts f VIDIOC_REQBUFS (AReq x) (pre @ [r])\<rparr>"
    by (rule dev_ioctl_cases) simp
  have "list_all (\<lambda>c. granted_of c = []) (attempts f VIDIOC_REQBUFS (AReq x) pre)"
    using *(1) by (intro attempts_all) (simp add: list_all_iff granted_of_failure transient_def)
  then have pre: "granted (attempts f VIDIOC_REQBUFS (AReq x) pre) = []"
    by (rule granted_none)
  obtain y where y: "written (AReq x) pre = AReq y"
    using written_req by blast
  obtain z where z: "write_back (AReq y) (wr r) = AReq z"
    using write_back_req by blast
  have "granted [attempt f VIDIOC_REQBUFS (AReq y) r] = [req_count (the_req a x)]"
    using * y z by (simp add: granted_def attempt_def written_append)
  with pre * y show "granted (calls k') = granted (calls k) @ [req_count (the_req a x)]"
    by (simp add: attempts_append)
  have "list_all (\<lambda>c. mapping_of c = [])
      (attempts f VIDIOC_REQBUFS (AReq x) (pre @ [r]))"
    by (intro attempts_all) (simp add: attempt_def)
  then have "mappings (attempts f VIDIOC_REQBUFS (AReq x) (pre @ [r])) = []"
    by (rule mappings_none)
  with * show "mappings (calls k') = mappings (calls k)" by simp
qed

lemma init_stream_success:
  assumes "init_stream k dev p = Inr (True, dev', p', k')"
  shows "\<exists>n. granted (calls k') = granted (calls k) @ [n] \<and>
    unat (bufcnt (dev_frame dev')) = unat n \<and>
    length (frm_buf (dev_frame dev')) = unat n \<and>
    mappings (calls k') = mappings (calls k) @ frm_buf (dev_frame dev') \<and>
    fd dev' = fd dev \<and> dev_buf dev' = dev_buf dev"
    and "separate (frm_buf (dev_frame dev'))"
    and "list_all (\<lambda>b. bv_size b \<noteq> 0) (frm_buf (dev_frame dev'))"
proof -
  from assms obtain a k1 a2 k2 k3 k4 k5 fps where
    success: "dev_ioctl k (fd dev) VIDIOC_S_FMT (AFmt (fmt_arg p)) = Inr (True, a, k1)"
      "dev_ioctl k1 (fd dev) VIDIOC_REQBUFS (AReq req_arg) = Inr (True, a2, k2)"
      "calloc k2 (req_count (the_req a2 req_arg)) = Inr (True, k3)"
      "map_loop k3 (allocated (sized dev (the_fmt a (fmt_arg p)))
          (req_count (the_req a2 req_arg))) (req_count (the_req a2 req_arg)) =
        Inr (True, dev', k4)"
      "queue_loop k4 dev' 0 = Inr (True, k5)"
      "set_framerate k5 dev' (par_fps p) = Inr (fps, k')"
    by (cases rule: init_stream_cases) auto
  let ?n = "req_count (the_req a2 req_arg)"
  have e1: "extends plain k k1" by (rule dev_ioctl_plain [OF success(1)]) simp
  note e2 = reqbufs_granted [OF success(2)]
  have e3: "extends plain k2 k3"
    by (rule calloc_extends [OF success(3)]) (simp add: plain_def)
  have m: "unat ?n < 256 \<and> unat (bufcnt (dev_frame dev')) = unat ?n \<and>
    length (frm_buf (dev_frame dev')) = unat ?n \<and>
    mappings (calls k4) = mappings (calls k3) @ drop 0 (frm_buf (dev_frame dev')) \<and>
    granted (calls k4) = granted (calls k3) \<and>
    fd dev' = fd dev \<and> dev_buf dev' = dev_buf dev"
    using map_loop_success [OF success(4)] by simp
  have e5: "extends plain k4 k5" by (rule queue_loop_plain [OF success(5)])
  have e6: "extends plain k5 k'" by (rule set_framerate_plain [OF success(6)])
  show "\<exists>n. granted (calls k') = granted (calls k) @ [n] \<and>
    unat (bufcnt (dev_frame dev')) = unat n \<and>
    length (frm_buf (dev_frame dev')) = unat n \<and>
    mappings (calls k') = mappings (calls k) @ frm_buf (dev_frame dev') \<and>
    fd dev' = fd dev \<and> dev_buf dev' = dev_buf dev"
    using extends_plain [OF e1] e2 extends_plain [OF e3] m extends_plain [OF e5]
      extends_plain [OF e6]
    by simp
  from map_loop_regions [OF success(4)] obtain bs where
    "mappings (calls k4) = mappings (calls k3) @ bs" "fresh_regions (live (calls k3)) bs"
    by auto
  with m have "fresh_regions (live (calls k3)) (frm_buf (dev_frame dev'))" by simp
  from fresh_regions_separate [OF this]
  show "separate (frm_buf (dev_frame dev'))"
    "list_all (\<lambda>b. bv_size b \<noteq> 0) (frm_buf (dev_frame dev'))"
    by simp_all
qed

lemma open_camera_plain: "open_camera k path = Inr (f, k') \<Longrightarrow> extends plain k k'"
  by (erule open_camera_extends) (simp_all add: plain_def)

lemma create_stream_success:
  assumes "create_stream k path p raw = Inr (Some s, p', k')"
  shows "\<exists>n. granted (calls k') = granted (calls k) @ [n] \<and>
    unat (bufcnt (dev_frame (sdev s))) = unat n \<and>
    length (frm_buf (dev_frame (sdev s))) = unat n \<and>
    mappings (calls k') = mappings (calls k) @ frm_buf (dev_frame (sdev s)) \<and>
    dev_buf (sdev s) = dev_buf raw"
    and "separate (frm_buf (dev_frame (sdev s)))"
    and "list_all (\<lambda>b. bv_size b \<noteq> 0) (frm_buf (dev_frame (sdev s)))"
proof -
  from assms obtain pth f k1 where
    oc: "open_camera k pth = Inr (f, k1)" and
    i: "init_stream k1 (device_new f raw) p = Inr (True, sdev s, p', k')"
    by (auto simp: create_stream_def split: option.splits sum.splits if_splits)
  from init_stream_success(1) [OF i] extends_plain [OF open_camera_plain [OF oc]]
  show "\<exists>n. granted (calls k') = granted (calls k) @ [n] \<and>
    unat (bufcnt (dev_frame (sdev s))) = unat n \<and>
    length (frm_buf (dev_frame (sdev s))) = unat n \<and>
    mappings (calls k') = mappings (calls k) @ frm_buf (dev_frame (sdev s)) \<and>
    dev_buf (sdev s) = dev_buf raw"
    by (auto simp: device_new_def)
  from init_stream_success(2,3) [OF i]
  show "separate (frm_buf (dev_frame (sdev s)))"
    "list_all (\<lambda>b. bv_size b \<noteq> 0) (frm_buf (dev_frame (sdev s)))"
    by simp_all
qed


text \<open>The runs of \<^verbatim>\<open>create_stream\<close> stage by stage. The mapping loop run up to a bound
  \<open>m\<close> below the granted count is the run of its first iterations, and so is the enqueue
  loop of the device with its buffer count lowered to \<open>j\<close>.\<close>

abbreviation parm_arg :: "u8 \<Rightarrow> v4l2_streamparm" where
  "parm_arg fps \<equiv> \<lparr>parm_type = V4L2_BUF_TYPE_VIDEO_CAPTURE, parm_numerator = 1,
                    parm_denominator = ucast fps\<rparr>"

abbreviation limited :: "device \<Rightarrow> u8 \<Rightarrow> device" where
  "limited dev j \<equiv> dev\<lparr>dev_frame := (dev_frame dev)\<lparr>bufcnt := j\<rparr>\<rparr>"

lemma map_loop_query_refused:
  "ucast (bufcnt (dev_frame dev)) < cnt \<Longrightarrow>
   dev_ioctl k (fd dev) VIDIOC_QUERYBUF (ABuf (query_arg dev)) = Inr (False, a, k') \<Longrightarrow>
   map_loop k dev cnt = Inr (False, dev, k')"
  by (subst map_loop.simps) simp

lemma map_loop_prefix:
  assumes "map_loop k dev m = Inr (ok, dq, kq)" and "ok" and "m \<le> cnt"
  shows "map_loop k dev cnt = map_loop kq dq cnt"
  using assms(1,2)
proof (induction rule: map_loop_result_induct)
  case (finished k dev)
  show ?case by simp
next
  case (query_failed k dev a k')
  then show ?case by simp
next
  case (map_failed k dev a kq k')
  then show ?case by simp
next
  case (step k dev a kq p km ok dev' k')
  from step(1) assms(3) have "ucast (bufcnt (dev_frame dev)) < cnt" by simp
  then have "map_loop k dev cnt = map_loop km (advanced (stored dev a p)) cnt"
    using step(2-5) by (subst map_loop.simps) (simp add: Let_def)
  with step(7) [OF step(8)] show ?case by simp
qed

lemma queue_loop_enqueue_refused:
  "i < bufcnt (dev_frame dev) \<Longrightarrow>
   dev_ioctl k (fd dev) VIDIOC_QBUF (ABuf (capture_buf\<lparr>buf_index := ucast i\<rparr>))
     = Inr (False, a, k') \<Longrightarrow>
   queue_loop k dev i = Inr (False, k')"
  by (subst queue_loop.simps) simp

lemma queue_loop_prefix:
  assumes "queue_loop k (limited dev j) i = Inr (ok, kj)" and "ok"
    and "j \<le> bufcnt (dev_frame dev)" and "i \<le> j"
  shows "queue_loop k dev i = queue_loop kj dev j"
  using assms(1,2,4)
proof (induction rule: queue_loop_result_induct)
  case (finished k i)
  then have "i = j" by simp
  then show ?case by simp
next
  case (failed k i a k')
  then show ?case by simp
next
  case (step k i a k1 ok k')
  from step(1) have lt: "i < j" by simp
  with assms(3) have "i < bufcnt (dev_frame dev)" by simp
  then have "queue_loop k dev i = queue_loop k1 dev (i + 1)"
    using step(2) by (subst queue_loop.simps) simp
  moreover from lt have "i + 1 \<le> j" by (simp add: inc_le)
  ultimately show ?case using step(4) [OF step(5)] by simp
qed


lemma create_stream_init:
  assumes "open_camera k path = Inr (f, k0)" and "0 \<le> f"
  shows "create_stream k (Some path) p raw =
    (case init_stream k0 (device_new f raw) p of
       Inl e \<Rightarrow> Inl e
     | Inr (ok, dev, p', k2) \<Rightarrow>
         if \<not> ok then Inr (None, p', k2) else Inr (Some \<lparr>sdev = dev\<rparr>, p', k2))"
  using assms by (simp add: create_stream_def)


lemma create_stream_construct:
  assumes "open_camera k path = Inr (f, k0)" and "0 \<le> f"
    and "dev_ioctl k0 f VIDIOC_S_FMT (AFmt (fmt_arg p)) = Inr (True, a, k1)"
    and "pix_pixelformat (the_fmt a (fmt_arg p)) = par_fmt p"
    and "dev_ioctl k1 f VIDIOC_REQBUFS (AReq req_arg) = Inr (True, b, k2)"
    and "calloc k2 (req_count (the_req b req_arg)) = Inr (True, k3)"
  shows "create_stream k (Some path) p raw =
      (case map_loop k3
              (allocated (sized (device_new f raw) (the_fmt a (fmt_arg p)))
                 (req_count (the_req b req_arg))) (req_count (the_req b req_arg)) of
         Inl e \<Rightarrow> Inl e
       | Inr (ok, dev3, k4) \<Rightarrow>
           if \<not> ok then Inr (None, negotiated p (the_fmt a (fmt_arg p)), k4)
           else
             (case queue_loop k4 dev3 0 of
                Inl e \<Rightarrow> Inl e
              | Inr (ok, k5) \<Rightarrow>
                  if \<not> ok then Inr (None, negotiated p (the_fmt a (fmt_arg p)), k5)
                  else
                    (case set_framerate k5 dev3 (par_fps p) of
                       Inl e \<Rightarrow> Inl e
                     | Inr (fps, k6) \<Rightarrow>
                         Inr (Some \<lparr>sdev = dev3\<rparr>,
                              (negotiated p (the_fmt a (fmt_arg p)))\<lparr>par_fps := fps\<rparr>, k6))))"
proof -
  have "fd (device_new f raw) = f" by (simp add: device_new_def)
  with assms(3-6) show ?thesis
    by (simp add: create_stream_init [OF assms(1,2)] init_stream_def Let_def
        split: sum.splits prod.splits)
qed













section \<open>Concrete runs\<close>

text \<open>What a run returned: whether it returned at all, the stream, the parameters, and
  the log.\<close>

definition returns :: "stop + 'a \<Rightarrow> bool" where
  "returns r = (case r of Inl e \<Rightarrow> False | Inr x \<Rightarrow> True)"

definition stream_of :: "stop + (stream option \<times> params \<times> world) \<Rightarrow> stream option" where
  "stream_of r = (case r of Inl e \<Rightarrow> None | Inr (s, p, k) \<Rightarrow> s)"

definition params_of :: "stop + (stream option \<times> params \<times> world) \<Rightarrow> params option" where
  "params_of r = (case r of Inl e \<Rightarrow> None | Inr (s, p, k) \<Rightarrow> Some p)"

definition log_of :: "stop + (stream option \<times> params \<times> world) \<Rightarrow> syscall list" where
  "log_of r = (case r of Inl e \<Rightarrow> [] | Inr (s, p, k) \<Rightarrow> calls k)"

text \<open>A camera at \<^verbatim>\<open>/dev/video0\<close>: a character device that opens as descriptor 3, with
  the given answers to control operations and to mapping calls. \<open>query_ret i\<close> is the
  answer to the query of buffer \<open>i\<close>: 4096 bytes at offset \<open>4096 * i\<close>. \<open>raw0\<close> is the
  memory a new device object is built in, and \<open>vga\<close> the parameters asked for.\<close>

definition query_ret :: "u32 \<Rightarrow> ioctl_ret" where
  "query_ret i = ret 0 0 (Some (ABuf (capture_buf
      \<lparr>buf_index := i, buf_offset := i * 4096, buf_length := 4096\<rparr>)))"

definition camera_world :: "ioctl_ret list \<Rightarrow> addr list \<Rightarrow> world" where
  "camera_world rs ms =
     world0\<lparr>stat_rets := [(0, 0x2180)], open_rets := [3], calloc_rets := [True],
            ioctl_rets := rs, mmap_rets := ms\<rparr>"

definition raw0 :: device where
  "raw0 = \<lparr>fd = 0, dev_frame = \<lparr>frm_w = 0, frm_h = 0, bufcnt = 7, frm_buf = []\<rparr>,
           dev_buf = capture_buf\<lparr>buf_bytesused := 9\<rparr>\<rparr>"

definition vga :: params where
  "vga = \<lparr>par_w = 640, par_h = 480, par_fps = 30, par_fmt = 0x56595559\<rparr>"

definition video0 :: "string option" where
  "video0 = Some ''/dev/video0''"

lemmas run_simps = live_def apart_def create_stream_def open_camera_def stat_def v4l2_open_def
  S_ISCHR_def
  init_stream_def dev_ioctl.simps v4l2_ioctl_def map_loop.simps queue_loop.simps
  set_framerate_def calloc_def v4l2_mmap_def device_new_def Let_def
  camera_world_def world0_def ret_def query_ret_def raw0_def vga_def video0_def capture_buf_def
  EINTR_def EAGAIN_def EINVAL_def MAP_FAILED_def BUFFERS_CNT_def
  V4L2_BUF_TYPE_VIDEO_CAPTURE_def V4L2_MEMORY_MMAP_def V4L2_FIELD_ANY_def
  returns_def stream_of_def params_of_def log_of_def

text \<open>The device refuses the framerate with EINVAL after everything else succeeded; and
  the device refuses the enqueue of the second buffer.\<close>

definition parm_refused :: world where
  "parm_refused = camera_world [ret 0 0 None, ret 0 0 None, query_ret 0, query_ret 1,
      ret 0 0 None, ret 0 0 None, ret (- 1) EINVAL None] [0x1000, 0x2000]"

definition qbuf_refused :: world where
  "qbuf_refused = camera_world [ret 0 0 None, ret 0 0 None, query_ret 0, query_ret 1,
      ret 0 0 None, ret (- 1) EINVAL None] [0x1000, 0x2000]"

text \<open>The device refuses the set-format operation; and the request for buffers.\<close>

definition fmt_refused :: world where
  "fmt_refused = camera_world [ret (- 1) EINVAL None] []"

definition req_refused :: world where
  "req_refused = camera_world [ret 0 0 None, ret (- 1) EINVAL None] []"

definition parm_call :: syscall where
  "parm_call = Ioctl 3 VIDIOC_S_PARM
     (AParm \<lparr>parm_type = 1, parm_numerator = 1, parm_denominator = 30\<rparr>)
     (AParm \<lparr>parm_type = 1, parm_numerator = 1, parm_denominator = 30\<rparr>) (- 1) EINVAL"

definition qbuf_call :: syscall where
  "qbuf_call = Ioctl 3 VIDIOC_QBUF
     (ABuf (capture_buf\<lparr>buf_index := 1\<rparr>)) (ABuf (capture_buf\<lparr>buf_index := 1\<rparr>))
     (- 1) EINVAL"

text \<open>The camera that accepts everything as asked, and the stream that
  \<^verbatim>\<open>create_stream\<close> returns for it; \<open>idle s\<close> is \<open>s\<close> with the pending-return marker
  cleared. An image whose fields are all zero, and one that still holds the byte count of
  an earlier frame. A world in which the next poll times out, and a camera that refuses
  the query of the second buffer with EINVAL.\<close>

definition good_world :: world where
  "good_world = camera_world [ret 0 0 None, ret 0 0 None, query_ret 0, query_ret 1,
      ret 0 0 None, ret 0 0 None, ret 0 0 None] [0x1000, 0x2000]"

definition cam :: stream where
  "cam = \<lparr>sdev = \<lparr>fd = 3,
       dev_frame = \<lparr>frm_w = 640, frm_h = 480, bufcnt = 2,
         frm_buf = [\<lparr>bv_data = 0x1000, bv_size = 4096\<rparr>, \<lparr>bv_data = 0x2000, bv_size = 4096\<rparr>]\<rparr>,
       dev_buf = capture_buf\<lparr>buf_bytesused := 9\<rparr>\<rparr>\<rparr>"

definition idle :: "stream \<Rightarrow> stream" where
  "idle s = s\<lparr>sdev := (sdev s)\<lparr>dev_buf := (dev_buf (sdev s))\<lparr>buf_bytesused := 0\<rparr>\<rparr>\<rparr>"

definition blank :: image where
  "blank = \<lparr>img_id = 0, img_w = 0, img_h = 0, img_data = 0, img_bytes = 0, img_sec = 0,
            img_nsec = 0\<rparr>"

definition stale :: image where
  "stale = blank\<lparr>img_id := 41, img_bytes := 5\<rparr>"

definition timeout_world :: world where
  "timeout_world = world0\<lparr>poll_rets := [\<lparr>prc = 0, perrno = 0, revents = 0\<rparr>]\<rparr>"

definition query_refused :: world where
  "query_refused = camera_world [ret 0 0 None, ret 0 0 None, query_ret 0,
      ret (- 1) EINVAL None] [0x1000]"

lemmas frame_simps = get_frame_def get_frame_loop.simps poll_def put_frame_def start_def
  dev_ioctl.simps v4l2_ioctl_def Let_def get_frame_size_def
  POLL_TIMEOUT_MS_def POLLIN_def EINTR_def EAGAIN_def EINVAL_def capture_buf_def
  world0_def ret_def cam_def idle_def blank_def timeout_world_def
  V4L2_BUF_TYPE_VIDEO_CAPTURE_def V4L2_MEMORY_MMAP_def

text \<open>A camera that answers the set-format operation with a width of 66176 (65536 + 640)
  and the pixel format asked for; one that answers with another pixel format; and one that
  grants 3 buffers where 2 were asked for.\<close>

definition wide_fmt :: v4l2_format where
  "wide_fmt = \<lparr>fmt_type = 1, pix_width = 66176, pix_height = 480,
               pix_pixelformat = 0x56595559, pix_field = 1\<rparr>"

definition mjpeg_fmt :: v4l2_format where
  "mjpeg_fmt = \<lparr>fmt_type = 1, pix_width = 640, pix_height = 480,
                pix_pixelformat = 0x47504A4D, pix_field = 1\<rparr>"

definition wide_world :: world where
  "wide_world = camera_world [ret 0 0 (Some (AFmt wide_fmt)), ret 0 0 None, query_ret 0,
      query_ret 1, ret 0 0 None, ret 0 0 None, ret 0 0 None] [0x1000, 0x2000]"

definition mjpeg_world :: world where
  "mjpeg_world = camera_world [ret 0 0 (Some (AFmt mjpeg_fmt))] []"







text \<open>A world that has a frame ready and whose dequeue operation fails with EINVAL
  after the record of buffer 1 with 100 bytes was stored through its argument; the next
  control operation succeeds. A caller that asks for a frame and then returns it:
  whether a frame came, the calls of \<^verbatim>\<open>get_frame\<close> and the calls of \<^verbatim>\<open>put_frame\<close>.\<close>

definition storing_failure :: world where
  "storing_failure = world0
     \<lparr>poll_rets := [\<lparr>prc = 1, perrno = 0, revents = POLLIN\<rparr>],
      ioctl_rets := [ret (- 1) EINVAL
                       (Some (ABuf (capture_buf\<lparr>buf_index := 1, buf_bytesused := 100\<rparr>))),
                     ret 0 0 None]\<rparr>"

definition get_put ::
  "world \<Rightarrow> stream \<Rightarrow> image \<Rightarrow> stop + (bool \<times> syscall list \<times> syscall list)" where
  "get_put k s out =
     (case get_frame k s out of
        Inl e \<Rightarrow> Inl e
      | Inr (ok, out', s1, k1) \<Rightarrow>
          (case put_frame k1 s1 of
             Inl e \<Rightarrow> Inl e
           | Inr (s2, k2) \<Rightarrow> Inr (ok, issued k k1, issued k1 k2)))"

lemma replicate_two: "replicate 2 x = [x, x]"
  by (simp add: numeral_2_eq_2)

lemma returns_create:
  "returns r \<Longrightarrow> stream_of r = Some s \<Longrightarrow> \<exists>p' k'. r = Inr (Some s, p', k')"
  by (cases r) (auto simp: returns_def stream_of_def)


section \<open>Failures of control operations during construction\<close>

text \<open>
  C2, as the code has it. Let the device be open. If the set-format operation fails with
  an error other than EINTR or EAGAIN, \<^verbatim>\<open>create_stream\<close> returns \<^verbatim>\<open>nullptr\<close> at once;
  so it does if the request-buffers operation fails; if, after the first \<open>m\<close> buffers
  were queried and mapped, the query of the next buffer fails; and if, after the first
  \<open>j\<close> buffers were enqueued, the enqueue of the next buffer fails. If everything up to
  the set-framerate operation succeeded and that operation fails, \<^verbatim>\<open>create_stream\<close>
  returns the stream, with the framerate 0 in the parameters.
\<close>

theorem create_stream_aborts:
  assumes "open_camera k path = Inr (f, k0)" and "0 \<le> f"
  shows
   "(dev_ioctl k0 f VIDIOC_S_FMT (AFmt (fmt_arg p)) = Inr (False, a, k1) \<longrightarrow>
       create_stream k (Some path) p raw = Inr (None, p, k1)) \<and>
    (dev_ioctl k0 f VIDIOC_S_FMT (AFmt (fmt_arg p)) = Inr (True, a, k1) \<and>
     pix_pixelformat (the_fmt a (fmt_arg p)) = par_fmt p \<longrightarrow>
       (dev_ioctl k1 f VIDIOC_REQBUFS (AReq req_arg) = Inr (False, b, k2) \<longrightarrow>
          create_stream k (Some path) p raw =
            Inr (None, negotiated p (the_fmt a (fmt_arg p)), k2)) \<and>
       (dev_ioctl k1 f VIDIOC_REQBUFS (AReq req_arg) = Inr (True, b, k2) \<and>
        calloc k2 (req_count (the_req b req_arg)) = Inr (True, k3) \<longrightarrow>
          (m \<le> req_count (the_req b req_arg) \<and>
           map_loop k3
             (allocated (sized (device_new f raw) (the_fmt a (fmt_arg p)))
                (req_count (the_req b req_arg))) m = Inr (True, dq, kq) \<and>
           ucast (bufcnt (dev_frame dq)) < req_count (the_req b req_arg) \<and>
           dev_ioctl kq (fd dq) VIDIOC_QUERYBUF (ABuf (query_arg dq)) = Inr (False, c, k') \<longrightarrow>
             create_stream k (Some path) p raw =
               Inr (None, negotiated p (the_fmt a (fmt_arg p)), k')) \<and>
          (map_loop k3
             (allocated (sized (device_new f raw) (the_fmt a (fmt_arg p)))
                (req_count (the_req b req_arg))) (req_count (the_req b req_arg))
             = Inr (True, dev, k4) \<longrightarrow>
             (queue_loop k4 (limited dev j) 0 = Inr (True, kj) \<and>
              j < bufcnt (dev_frame dev) \<and>
              dev_ioctl kj (fd dev) VIDIOC_QBUF (ABuf (capture_buf\<lparr>buf_index := ucast j\<rparr>))
                = Inr (False, c, k') \<longrightarrow>
                create_stream k (Some path) p raw =
                  Inr (None, negotiated p (the_fmt a (fmt_arg p)), k')) \<and>
             (queue_loop k4 dev 0 = Inr (True, k5) \<and>
              dev_ioctl k5 (fd dev) VIDIOC_S_PARM (AParm (parm_arg (par_fps p)))
                = Inr (False, c, k') \<longrightarrow>
                create_stream k (Some path) p raw =
                  Inr (Some \<lparr>sdev = dev\<rparr>,
                       (negotiated p (the_fmt a (fmt_arg p)))\<lparr>par_fps := 0\<rparr>, k')))))"
proof -
  note cs = create_stream_init [OF assms, of p raw]
  let ?n = "req_count (the_req b req_arg)"
  let ?d = "allocated (sized (device_new f raw) (the_fmt a (fmt_arg p))) ?n"
  let ?p = "negotiated p (the_fmt a (fmt_arg p))"
  have fd: "fd (device_new f raw) = f" by (simp add: device_new_def)
  have 1: "create_stream k (Some path) p raw = Inr (None, p, k1)"
    if "dev_ioctl k0 f VIDIOC_S_FMT (AFmt (fmt_arg p)) = Inr (False, a, k1)"
    using that by (simp add: cs init_stream_def fd)
  have 2: "create_stream k (Some path) p raw = Inr (None, ?p, k2)"
    if "dev_ioctl k0 f VIDIOC_S_FMT (AFmt (fmt_arg p)) = Inr (True, a, k1)"
      "pix_pixelformat (the_fmt a (fmt_arg p)) = par_fmt p"
      "dev_ioctl k1 f VIDIOC_REQBUFS (AReq req_arg) = Inr (False, b, k2)"
    using that by (simp add: cs init_stream_def fd Let_def)
  have rest: "create_stream k (Some path) p raw =
      (case map_loop k3 ?d ?n of
         Inl e \<Rightarrow> Inl e
       | Inr (ok, dev3, k4) \<Rightarrow>
           if \<not> ok then Inr (None, ?p, k4)
           else
             (case queue_loop k4 dev3 0 of
                Inl e \<Rightarrow> Inl e
              | Inr (ok, k5) \<Rightarrow>
                  if \<not> ok then Inr (None, ?p, k5)
                  else
                    (case set_framerate k5 dev3 (par_fps p) of
                       Inl e \<Rightarrow> Inl e
                     | Inr (fps, k6) \<Rightarrow>
                         Inr (Some \<lparr>sdev = dev3\<rparr>, ?p\<lparr>par_fps := fps\<rparr>, k6))))"
    if "dev_ioctl k0 f VIDIOC_S_FMT (AFmt (fmt_arg p)) = Inr (True, a, k1)"
      "pix_pixelformat (the_fmt a (fmt_arg p)) = par_fmt p"
      "dev_ioctl k1 f VIDIOC_REQBUFS (AReq req_arg) = Inr (True, b, k2)"
      "calloc k2 ?n = Inr (True, k3)"
    using that
    by (simp add: cs init_stream_def fd Let_def split: sum.splits prod.splits)
  have 3: "map_loop k3 ?d ?n = Inr (False, dq, k')"
    if "m \<le> ?n" "map_loop k3 ?d m = Inr (True, dq, kq)"
      "ucast (bufcnt (dev_frame dq)) < ?n"
      "dev_ioctl kq (fd dq) VIDIOC_QUERYBUF (ABuf (query_arg dq)) = Inr (False, c, k')"
    using map_loop_prefix [OF that(2) TrueI that(1)] map_loop_query_refused [OF that(3,4)]
    by simp
  have 4: "queue_loop k4 dev 0 = Inr (False, k')"
    if "queue_loop k4 (limited dev j) 0 = Inr (True, kj)" "j < bufcnt (dev_frame dev)"
      "dev_ioctl kj (fd dev) VIDIOC_QBUF (ABuf (capture_buf\<lparr>buf_index := ucast j\<rparr>))
         = Inr (False, c, k')"
    using queue_loop_prefix [OF that(1) TrueI] queue_loop_enqueue_refused [OF that(2,3)] that(2)
    by simp
  have 5: "set_framerate k5 dev (par_fps p) = Inr (0, k')"
    if "dev_ioctl k5 (fd dev) VIDIOC_S_PARM (AParm (parm_arg (par_fps p))) = Inr (False, c, k')"
    using that by (simp add: set_framerate_def)
  show ?thesis
  proof (intro conjI impI; (elim conjE)?)
    assume "dev_ioctl k0 f VIDIOC_S_FMT (AFmt (fmt_arg p)) = Inr (False, a, k1)"
    then show "create_stream k (Some path) p raw = Inr (None, p, k1)" by (rule 1)
  next
    assume "dev_ioctl k0 f VIDIOC_S_FMT (AFmt (fmt_arg p)) = Inr (True, a, k1)"
      "pix_pixelformat (the_fmt a (fmt_arg p)) = par_fmt p"
      "dev_ioctl k1 f VIDIOC_REQBUFS (AReq req_arg) = Inr (False, b, k2)"
    then show "create_stream k (Some path) p raw = Inr (None, ?p, k2)" by (rule 2)
  next
    assume h: "dev_ioctl k0 f VIDIOC_S_FMT (AFmt (fmt_arg p)) = Inr (True, a, k1)"
      "pix_pixelformat (the_fmt a (fmt_arg p)) = par_fmt p"
      "dev_ioctl k1 f VIDIOC_REQBUFS (AReq req_arg) = Inr (True, b, k2)"
      "calloc k2 ?n = Inr (True, k3)"
      and q: "m \<le> ?n" "map_loop k3 ?d m = Inr (True, dq, kq)"
      "ucast (bufcnt (dev_frame dq)) < ?n"
      "dev_ioctl kq (fd dq) VIDIOC_QUERYBUF (ABuf (query_arg dq)) = Inr (False, c, k')"
    show "create_stream k (Some path) p raw = Inr (None, ?p, k')"
      unfolding rest [OF h] 3 [OF q] by simp
  next
    assume h: "dev_ioctl k0 f VIDIOC_S_FMT (AFmt (fmt_arg p)) = Inr (True, a, k1)"
      "pix_pixelformat (the_fmt a (fmt_arg p)) = par_fmt p"
      "dev_ioctl k1 f VIDIOC_REQBUFS (AReq req_arg) = Inr (True, b, k2)"
      "calloc k2 ?n = Inr (True, k3)"
      and l: "map_loop k3 ?d ?n = Inr (True, dev, k4)"
      and q: "queue_loop k4 (limited dev j) 0 = Inr (True, kj)" "j < bufcnt (dev_frame dev)"
      "dev_ioctl kj (fd dev) VIDIOC_QBUF (ABuf (capture_buf\<lparr>buf_index := ucast j\<rparr>))
         = Inr (False, c, k')"
    show "create_stream k (Some path) p raw = Inr (None, ?p, k')"
      unfolding rest [OF h] l by (simp add: 4 [OF q])
  next
    assume h: "dev_ioctl k0 f VIDIOC_S_FMT (AFmt (fmt_arg p)) = Inr (True, a, k1)"
      "pix_pixelformat (the_fmt a (fmt_arg p)) = par_fmt p"
      "dev_ioctl k1 f VIDIOC_REQBUFS (AReq req_arg) = Inr (True, b, k2)"
      "calloc k2 ?n = Inr (True, k3)"
      and l: "map_loop k3 ?d ?n = Inr (True, dev, k4)"
      and q: "queue_loop k4 dev 0 = Inr (True, k5)"
      "dev_ioctl k5 (fd dev) VIDIOC_S_PARM (AParm (parm_arg (par_fps p))) = Inr (False, c, k')"
    show "create_stream k (Some path) p raw =
        Inr (Some \<lparr>sdev = dev\<rparr>, ?p\<lparr>par_fps := 0\<rparr>, k')"
      unfolding rest [OF h] l by (simp add: q(1) 5 [OF q(2)])
  qed
qed



theorem create_stream_aborts_witness:
  "(returns (create_stream fmt_refused video0 vga raw0) \<and>
    stream_of (create_stream fmt_refused video0 vga raw0) = None) \<and>
   (returns (create_stream req_refused video0 vga raw0) \<and>
    stream_of (create_stream req_refused video0 vga raw0) = None) \<and>
   (returns (create_stream query_refused video0 vga raw0) \<and>
    stream_of (create_stream query_refused video0 vga raw0) = None) \<and>
   (returns (create_stream qbuf_refused video0 vga raw0) \<and>
    stream_of (create_stream qbuf_refused video0 vga raw0) = None) \<and>
   (returns (create_stream parm_refused video0 vga raw0) \<and>
    stream_of (create_stream parm_refused video0 vga raw0) \<noteq> None \<and>
    map_option par_fps (params_of (create_stream parm_refused video0 vga raw0)) = Some 0)"
proof (intro conjI)
  obtain k0 where oc: "open_camera fmt_refused ''/dev/video0'' = Inr (3, k0)"
    by (simp add: run_simps fmt_refused_def)
  obtain a k1 where s1: "dev_ioctl k0 3 VIDIOC_S_FMT (AFmt (fmt_arg vga)) = Inr (False, a, k1)"
    using oc by (auto simp: run_simps fmt_refused_def)
  from create_stream_aborts [OF oc, of vga a k1 raw0] s1
  have r: "create_stream fmt_refused video0 vga raw0 = Inr (None, vga, k1)"
    by (simp add: video0_def)
  from r show "returns (create_stream fmt_refused video0 vga raw0)"
    by (simp add: returns_def)
  from r show "stream_of (create_stream fmt_refused video0 vga raw0) = None"
    by (simp add: stream_of_def)
next
  obtain k0 where oc: "open_camera req_refused ''/dev/video0'' = Inr (3, k0)"
    by (simp add: run_simps req_refused_def)
  obtain a k1 where s1: "dev_ioctl k0 3 VIDIOC_S_FMT (AFmt (fmt_arg vga)) = Inr (True, a, k1)"
    "pix_pixelformat (the_fmt a (fmt_arg vga)) = par_fmt vga"
    using oc by (auto simp: run_simps req_refused_def)
  obtain b k2 where s2: "dev_ioctl k1 3 VIDIOC_REQBUFS (AReq req_arg) = Inr (False, b, k2)"
    using oc s1 by (auto simp: run_simps req_refused_def)
  from create_stream_aborts [OF oc, of vga a k1 raw0 b k2] s1 s2
  have r: "create_stream req_refused video0 vga raw0 =
     Inr (None, negotiated vga (the_fmt a (fmt_arg vga)), k2)"
    by (simp add: video0_def)
  from r show "returns (create_stream req_refused video0 vga raw0)"
    by (simp add: returns_def)
  from r show "stream_of (create_stream req_refused video0 vga raw0) = None"
    by (simp add: stream_of_def)
next
  obtain k0 where oc: "open_camera query_refused ''/dev/video0'' = Inr (3, k0)"
    by (simp add: run_simps query_refused_def)
  obtain a k1 where s1: "dev_ioctl k0 3 VIDIOC_S_FMT (AFmt (fmt_arg vga)) = Inr (True, a, k1)"
    "pix_pixelformat (the_fmt a (fmt_arg vga)) = par_fmt vga"
    using oc by (auto simp: run_simps query_refused_def)
  obtain b k2 where s2: "dev_ioctl k1 3 VIDIOC_REQBUFS (AReq req_arg) = Inr (True, b, k2)"
    "req_count (the_req b req_arg) = 2"
    using oc s1 by (auto simp: run_simps query_refused_def)
  obtain k3 where s3: "calloc k2 2 = Inr (True, k3)"
    using oc s1 s2 by (auto simp: run_simps query_refused_def)
  obtain dq kq where s4:
    "map_loop k3 (allocated (sized (device_new 3 raw0) (the_fmt a (fmt_arg vga))) 2) 1
       = Inr (True, dq, kq)" "bufcnt (dev_frame dq) = 1" "fd dq = 3"
    using oc s1 s2 s3 by (auto simp: run_simps query_refused_def)
  obtain c k' where s5:
    "dev_ioctl kq 3 VIDIOC_QUERYBUF (ABuf (query_arg dq)) = Inr (False, c, k')"
    using oc s1 s2 s3 s4 by (auto simp: run_simps query_refused_def)
  from create_stream_aborts [OF oc, of vga a k1 raw0 b k2 k3 1 dq kq c k'] s1 s2 s3 s4 s5
  have r: "create_stream query_refused video0 vga raw0 =
     Inr (None, negotiated vga (the_fmt a (fmt_arg vga)), k')"
    by (simp add: video0_def)
  from r show "returns (create_stream query_refused video0 vga raw0)"
    by (simp add: returns_def)
  from r show "stream_of (create_stream query_refused video0 vga raw0) = None"
    by (simp add: stream_of_def)
next
  obtain k0 where oc: "open_camera qbuf_refused ''/dev/video0'' = Inr (3, k0)"
    by (simp add: run_simps qbuf_refused_def)
  obtain a k1 where s1: "dev_ioctl k0 3 VIDIOC_S_FMT (AFmt (fmt_arg vga)) = Inr (True, a, k1)"
    "pix_pixelformat (the_fmt a (fmt_arg vga)) = par_fmt vga"
    using oc by (auto simp: run_simps qbuf_refused_def)
  obtain b k2 where s2: "dev_ioctl k1 3 VIDIOC_REQBUFS (AReq req_arg) = Inr (True, b, k2)"
    "req_count (the_req b req_arg) = 2"
    using oc s1 by (auto simp: run_simps qbuf_refused_def)
  obtain k3 where s3: "calloc k2 2 = Inr (True, k3)"
    using oc s1 s2 by (auto simp: run_simps qbuf_refused_def)
  obtain dev k4 where s4:
    "map_loop k3 (allocated (sized (device_new 3 raw0) (the_fmt a (fmt_arg vga))) 2) 2
       = Inr (True, dev, k4)" "bufcnt (dev_frame dev) = 2" "fd dev = 3"
    using oc s1 s2 s3 by (auto simp: run_simps qbuf_refused_def)
  obtain kj where s5: "queue_loop k4 (limited dev 1) 0 = Inr (True, kj)"
    using oc s1 s2 s3 s4 by (auto simp: run_simps qbuf_refused_def)
  obtain c k' where s6:
    "dev_ioctl kj 3 VIDIOC_QBUF (ABuf (capture_buf\<lparr>buf_index := ucast (1 :: u8)\<rparr>))
       = Inr (False, c, k')"
    using oc s1 s2 s3 s4 s5 by (auto simp: run_simps qbuf_refused_def)
  from create_stream_aborts [OF oc, of vga a k1 raw0 b k2 k3 _ _ _ c k' dev k4 1 kj]
    s1 s2 s3 s4 s5 s6
  have r: "create_stream qbuf_refused video0 vga raw0 =
     Inr (None, negotiated vga (the_fmt a (fmt_arg vga)), k')"
    by (simp add: video0_def)
  from r show "returns (create_stream qbuf_refused video0 vga raw0)"
    by (simp add: returns_def)
  from r show "stream_of (create_stream qbuf_refused video0 vga raw0) = None"
    by (simp add: stream_of_def)
next
  obtain k0 where oc: "open_camera parm_refused ''/dev/video0'' = Inr (3, k0)"
    by (simp add: run_simps parm_refused_def)
  obtain a k1 where s1: "dev_ioctl k0 3 VIDIOC_S_FMT (AFmt (fmt_arg vga)) = Inr (True, a, k1)"
    "pix_pixelformat (the_fmt a (fmt_arg vga)) = par_fmt vga"
    using oc by (auto simp: run_simps parm_refused_def)
  obtain b k2 where s2: "dev_ioctl k1 3 VIDIOC_REQBUFS (AReq req_arg) = Inr (True, b, k2)"
    "req_count (the_req b req_arg) = 2"
    using oc s1 by (auto simp: run_simps parm_refused_def)
  obtain k3 where s3: "calloc k2 2 = Inr (True, k3)"
    using oc s1 s2 by (auto simp: run_simps parm_refused_def)
  obtain dev k4 where s4:
    "map_loop k3 (allocated (sized (device_new 3 raw0) (the_fmt a (fmt_arg vga))) 2) 2
       = Inr (True, dev, k4)" "bufcnt (dev_frame dev) = 2" "fd dev = 3"
    using oc s1 s2 s3 by (auto simp: run_simps parm_refused_def)
  obtain k5 where s5: "queue_loop k4 dev 0 = Inr (True, k5)"
    using oc s1 s2 s3 s4 by (auto simp: run_simps parm_refused_def)
  obtain c k' where s6:
    "dev_ioctl k5 3 VIDIOC_S_PARM (AParm (parm_arg (par_fps vga))) = Inr (False, c, k')"
    using oc s1 s2 s3 s4 s5 by (auto simp: run_simps parm_refused_def)
  from create_stream_aborts [OF oc, of vga a k1 raw0 b k2 k3 _ _ _ c k' dev k4 _ _ k5]
    s1 s2 s3 s4 s5 s6
  have r: "create_stream parm_refused video0 vga raw0 =
     Inr (Some \<lparr>sdev = dev\<rparr>, (negotiated vga (the_fmt a (fmt_arg vga)))\<lparr>par_fps := 0\<rparr>, k')"
    by (simp add: video0_def)
  from r show "returns (create_stream parm_refused video0 vga raw0)"
    by (simp add: returns_def)
  from r show "stream_of (create_stream parm_refused video0 vga raw0) \<noteq> None"
    by (simp add: stream_of_def)
  from r show
    "map_option par_fps (params_of (create_stream parm_refused video0 vga raw0)) = Some 0"
    by (simp add: params_of_def)
qed

text \<open>C2 as stated fails: the set-framerate operation fails with EINVAL, and
  \<^verbatim>\<open>create_stream\<close> still returns a stream.\<close>

theorem set_framerate_failure_counterexample:
  "parm_call \<in> set (log_of (create_stream parm_refused video0 vga raw0)) \<and>
   failed parm_call \<and>
   stream_of (create_stream parm_refused video0 vga raw0) \<noteq> None"
  by (simp add: run_simps parm_refused_def parm_call_def)

section \<open>Resources after a failed construction\<close>

text \<open>\<^verbatim>\<open>create_stream\<close> never unmaps and never closes: whatever it returns, the calls it
  made contain no \<^verbatim>\<open>v4l2_munmap\<close> and no \<^verbatim>\<open>v4l2_close\<close>.\<close>

lemma create_stream_never_releases:
  assumes "create_stream k path p raw = Inr (res, p', k')"
  shows "calls k' = calls k @ issued k k' \<and> filter is_release (issued k k') = []"
  using extends_issued [OF create_stream_init_call [OF assms]]
  by (auto simp: list_all_iff init_call_def filter_empty_conv)

text \<open>
  C1. The claim says that a failed construction releases what it acquired. The code does
  not: when the query of the second buffer fails, \<^verbatim>\<open>create_stream\<close> returns
  \<^verbatim>\<open>nullptr\<close>, the device was opened as descriptor 3 and the first buffer was mapped at
  0x1000, and the run contains no unmap and no close.
\<close>

theorem create_stream_leaks:
  "returns (create_stream query_refused video0 vga raw0) \<and>
   stream_of (create_stream query_refused video0 vga raw0) = None \<and>
   Open ''/dev/video0'' 3 \<in> set (log_of (create_stream query_refused video0 vga raw0)) \<and>
   mappings (log_of (create_stream query_refused video0 vga raw0)) =
     [\<lparr>bv_data = 0x1000, bv_size = 4096\<rparr>] \<and>
   filter is_release (log_of (create_stream query_refused video0 vga raw0)) = []"
  by (simp add: run_simps query_refused_def mappings_def)

section \<open>Format negotiation\<close>

lemma init_stream_negotiated:
  assumes i: "init_stream k dev p = Inr (ok, dev', p', k')"
    and f: "dev_ioctl k (fd dev) VIDIOC_S_FMT (AFmt (fmt_arg p)) = Inr (True, a, k1)"
  shows "if pix_pixelformat (the_fmt a (fmt_arg p)) \<noteq> par_fmt p
    then \<not> ok \<and> p' = p \<and> k' = k1
    else length (calls k1) < length (calls k') \<and> par_fmt p' = par_fmt p \<and>
      par_w p' = ucast (pix_width (the_fmt a (fmt_arg p))) \<and>
      par_h p' = ucast (pix_height (the_fmt a (fmt_arg p)))"
  using i
proof (cases rule: init_stream_cases)
  case (fmt_failed a')
  with f show ?thesis by simp
next
  case (fmt_mismatch a')
  with f show ?thesis by simp
next
  case (req_failed a' k1' a2)
  with f have [simp]: "a' = a" "k1' = k1" by simp_all
  from dev_ioctl_calls_longer [OF req_failed(3)] req_failed show ?thesis by simp
next
  case (calloc_failed a' k1' a2 k2)
  with f have [simp]: "a' = a" "k1' = k1" by simp_all
  from dev_ioctl_calls_longer [OF calloc_failed(3)]
    extends_length [OF calloc_extends [OF calloc_failed(4), of "\<lambda>c. True"]]
    calloc_failed show ?thesis by simp
next
  case (map_failed a' k1' a2 k2 k3)
  with f have [simp]: "a' = a" "k1' = k1" by simp_all
  from dev_ioctl_calls_longer [OF map_failed(3)]
    extends_length [OF calloc_extends [OF map_failed(4), of "\<lambda>c. True"]]
    extends_length [OF map_loop_init_call [OF map_failed(5), of False]]
    map_failed show ?thesis by simp
next
  case (queue_failed a' k1' a2 k2 k3 k4)
  with f have [simp]: "a' = a" "k1' = k1" by simp_all
  from dev_ioctl_calls_longer [OF queue_failed(3)]
    extends_length [OF calloc_extends [OF queue_failed(4), of "\<lambda>c. True"]]
    extends_length [OF map_loop_init_call [OF queue_failed(5), of False]]
    extends_length [OF queue_loop_plain [OF queue_failed(6)]]
    queue_failed show ?thesis by simp
next
  case (success a' k1' a2 k2 k3 k4 k5 fps)
  with f have [simp]: "a' = a" "k1' = k1" by simp_all
  from dev_ioctl_calls_longer [OF success(3)]
    extends_length [OF calloc_extends [OF success(4), of "\<lambda>c. True"]]
    extends_length [OF map_loop_init_call [OF success(5), of False]]
    extends_length [OF queue_loop_plain [OF success(6)]]
    extends_length [OF set_framerate_plain [OF success(7)]]
    success show ?thesis by simp
qed

text \<open>
  C4, as the code has it. Let the device be open and let the set-format operation
  succeed, leaving the format \<open>the_fmt a (fmt_arg p)\<close> in its argument. Then
  \<^verbatim>\<open>create_stream\<close> returns \<^verbatim>\<open>nullptr\<close> at once, without a further call and with the
  parameters untouched, exactly when the pixel-format token of that format differs from
  the one asked for. When the token is the same, every run that returns leaves the
  pixel-format field of the parameters unchanged and width and height overwritten with
  the low 16 bits of the device's 32-bit answers, whatever these are and whether or not
  the rest of the construction succeeds; and when the rest of the construction succeeds,
  \<^verbatim>\<open>create_stream\<close> returns the stream with exactly these parameters and the framerate
  that \<^verbatim>\<open>set_framerate\<close> gave.
\<close>

theorem format_negotiation:
  assumes "open_camera k path = Inr (f, k0)" and "0 \<le> f"
    and "dev_ioctl k0 f VIDIOC_S_FMT (AFmt (fmt_arg p)) = Inr (True, a, k1)"
  shows
   "(create_stream k (Some path) p raw = Inr (None, p, k1) \<longleftrightarrow>
       pix_pixelformat (the_fmt a (fmt_arg p)) \<noteq> par_fmt p) \<and>
    (pix_pixelformat (the_fmt a (fmt_arg p)) = par_fmt p \<and>
     create_stream k (Some path) p raw = Inr (res, p', k') \<longrightarrow>
       par_fmt p' = par_fmt p \<and>
       par_w p' = ucast (pix_width (the_fmt a (fmt_arg p))) \<and>
       par_h p' = ucast (pix_height (the_fmt a (fmt_arg p)))) \<and>
    (pix_pixelformat (the_fmt a (fmt_arg p)) = par_fmt p \<and>
     dev_ioctl k1 f VIDIOC_REQBUFS (AReq req_arg) = Inr (True, b, k2) \<and>
     calloc k2 (req_count (the_req b req_arg)) = Inr (True, k3) \<and>
     map_loop k3
       (allocated (sized (device_new f raw) (the_fmt a (fmt_arg p)))
          (req_count (the_req b req_arg))) (req_count (the_req b req_arg))
       = Inr (True, dev, k4) \<and>
     queue_loop k4 dev 0 = Inr (True, k5) \<and>
     set_framerate k5 dev (par_fps p) = Inr (fps, k6) \<longrightarrow>
       create_stream k (Some path) p raw =
         Inr (Some \<lparr>sdev = dev\<rparr>,
              \<lparr>par_w = ucast (pix_width (the_fmt a (fmt_arg p))),
               par_h = ucast (pix_height (the_fmt a (fmt_arg p))),
               par_fps = fps, par_fmt = par_fmt p\<rparr>, k6))"
proof (intro conjI impI; (elim conjE)?)
  note cs = create_stream_init [OF assms(1,2), of p raw]
  have fd: "fd (device_new f raw) = f" by (simp add: device_new_def)
  show "create_stream k (Some path) p raw = Inr (None, p, k1) \<longleftrightarrow>
       pix_pixelformat (the_fmt a (fmt_arg p)) \<noteq> par_fmt p"
  proof
    assume c: "create_stream k (Some path) p raw = Inr (None, p, k1)"
    then obtain ok dev where
      i: "init_stream k0 (device_new f raw) p = Inr (ok, dev, p, k1)"
      by (auto simp: cs split: sum.splits if_splits)
    from init_stream_negotiated [OF i] assms(3) fd
    show "pix_pixelformat (the_fmt a (fmt_arg p)) \<noteq> par_fmt p"
      by (auto split: if_splits)
  next
    assume "pix_pixelformat (the_fmt a (fmt_arg p)) \<noteq> par_fmt p"
    with assms(3) show "create_stream k (Some path) p raw = Inr (None, p, k1)"
      by (simp add: cs init_stream_def fd)
  qed
  {
    assume e: "pix_pixelformat (the_fmt a (fmt_arg p)) = par_fmt p"
      and c: "create_stream k (Some path) p raw = Inr (res, p', k')"
    from c obtain ok dev where
      i: "init_stream k0 (device_new f raw) p = Inr (ok, dev, p', k')"
      by (auto simp: cs split: sum.splits if_splits)
    from init_stream_negotiated [OF i] assms(3) fd e
    show "par_fmt p' = par_fmt p" "par_w p' = ucast (pix_width (the_fmt a (fmt_arg p)))"
      "par_h p' = ucast (pix_height (the_fmt a (fmt_arg p)))"
      by simp_all
  }
  assume e: "pix_pixelformat (the_fmt a (fmt_arg p)) = par_fmt p"
    and h: "dev_ioctl k1 f VIDIOC_REQBUFS (AReq req_arg) = Inr (True, b, k2)"
      "calloc k2 (req_count (the_req b req_arg)) = Inr (True, k3)"
    and l: "map_loop k3
       (allocated (sized (device_new f raw) (the_fmt a (fmt_arg p)))
          (req_count (the_req b req_arg))) (req_count (the_req b req_arg))
       = Inr (True, dev, k4)"
    and q: "queue_loop k4 dev 0 = Inr (True, k5)"
      "set_framerate k5 dev (par_fps p) = Inr (fps, k6)"
  show "create_stream k (Some path) p raw =
         Inr (Some \<lparr>sdev = dev\<rparr>,
              \<lparr>par_w = ucast (pix_width (the_fmt a (fmt_arg p))),
               par_h = ucast (pix_height (the_fmt a (fmt_arg p))),
               par_fps = fps, par_fmt = par_fmt p\<rparr>, k6)"
    unfolding create_stream_construct [OF assms e h] l by (simp add: q)
qed

theorem format_negotiation_witness:
  "create_stream mjpeg_world video0 vga raw0 =
     Inr (None, vga,
          camera_world [] []
            \<lparr>stat_rets := [], open_rets := [],
             calls := [Stat ''/dev/video0'' 0, Open ''/dev/video0'' 3,
                       Ioctl 3 VIDIOC_S_FMT (AFmt (fmt_arg vga)) (AFmt mjpeg_fmt) 0 0]\<rparr>) \<and>
   returns (create_stream wide_world video0 vga raw0) \<and>
   stream_of (create_stream wide_world video0 vga raw0) \<noteq> None \<and>
   params_of (create_stream wide_world video0 vga raw0) =
     Some \<lparr>par_w = 640, par_h = 480, par_fps = 30, par_fmt = par_fmt vga\<rparr>"
proof -
  let ?k1 = "camera_world [] []
            \<lparr>stat_rets := [], open_rets := [],
             calls := [Stat ''/dev/video0'' 0, Open ''/dev/video0'' 3,
                       Ioctl 3 VIDIOC_S_FMT (AFmt (fmt_arg vga)) (AFmt mjpeg_fmt) 0 0]\<rparr>"
  have pos: "(0 :: int) \<le> 3" by simp
  obtain m0 where mo: "open_camera mjpeg_world ''/dev/video0'' = Inr (3, m0)"
    by (simp add: run_simps mjpeg_world_def)
  have md: "dev_ioctl m0 3 VIDIOC_S_FMT (AFmt (fmt_arg vga)) = Inr (True, AFmt mjpeg_fmt, ?k1)"
    using mo by (auto simp: run_simps mjpeg_world_def mjpeg_fmt_def)
  have "pix_pixelformat (the_fmt (AFmt mjpeg_fmt) (fmt_arg vga)) \<noteq> par_fmt vga"
    by (simp add: mjpeg_fmt_def vga_def)
  with format_negotiation [OF mo pos md, of raw0, THEN conjunct1]
  have A: "create_stream mjpeg_world video0 vga raw0 = Inr (None, vga, ?k1)"
    by (simp add: video0_def)
  obtain k0 where oc: "open_camera wide_world ''/dev/video0'' = Inr (3, k0)"
    by (simp add: run_simps wide_world_def)
  obtain k1 where s1:
    "dev_ioctl k0 3 VIDIOC_S_FMT (AFmt (fmt_arg vga)) = Inr (True, AFmt wide_fmt, k1)"
    using oc by (auto simp: run_simps wide_world_def wide_fmt_def)
  have e: "pix_pixelformat (the_fmt (AFmt wide_fmt) (fmt_arg vga)) = par_fmt vga"
    by (simp add: wide_fmt_def vga_def)
  obtain b k2 where s2: "dev_ioctl k1 3 VIDIOC_REQBUFS (AReq req_arg) = Inr (True, b, k2)"
    "req_count (the_req b req_arg) = 2"
    using oc s1 by (auto simp: run_simps wide_world_def wide_fmt_def)
  obtain k3 where s3: "calloc k2 2 = Inr (True, k3)"
    using oc s1 s2 by (auto simp: run_simps wide_world_def wide_fmt_def)
  obtain dev k4 where s4:
    "map_loop k3 (allocated (sized (device_new 3 raw0) (the_fmt (AFmt wide_fmt) (fmt_arg vga)))
        2) 2 = Inr (True, dev, k4)" "bufcnt (dev_frame dev) = 2" "fd dev = 3"
    using oc s1 s2 s3 by (auto simp: run_simps wide_world_def wide_fmt_def)
  obtain k5 where s5: "queue_loop k4 dev 0 = Inr (True, k5)"
    using oc s1 s2 s3 s4 by (auto simp: run_simps wide_world_def wide_fmt_def)
  obtain k6 where s6: "set_framerate k5 dev (par_fps vga) = Inr (30, k6)"
    using oc s1 s2 s3 s4 s5 by (auto simp: run_simps wide_world_def wide_fmt_def)
  from format_negotiation [OF oc pos s1, of raw0 _ _ _ b k2 k3 dev k4 k5 30 k6,
      THEN conjunct2, THEN conjunct2] e s2 s3 s4 s5 s6
  have "create_stream wide_world video0 vga raw0 =
     Inr (Some \<lparr>sdev = dev\<rparr>,
          \<lparr>par_w = ucast (pix_width wide_fmt), par_h = ucast (pix_height wide_fmt),
           par_fps = 30, par_fmt = par_fmt vga\<rparr>, k6)"
    by (simp add: video0_def)
  then have B: "returns (create_stream wide_world video0 vga raw0)"
    "stream_of (create_stream wide_world video0 vga raw0) \<noteq> None"
    "params_of (create_stream wide_world video0 vga raw0) =
       Some \<lparr>par_w = 640, par_h = 480, par_fps = 30, par_fmt = par_fmt vga\<rparr>"
    by (simp_all add: returns_def stream_of_def params_of_def wide_fmt_def)
  from A B show ?thesis by simp
qed

text \<open>C4 as stated fails: the device answers the width 66176 with the pixel format asked
  for, a stream is returned, and the width in the parameters is 640.\<close>

theorem width_truncated_counterexample:
  "Ioctl 3 VIDIOC_S_FMT
      (AFmt \<lparr>fmt_type = 1, pix_width = 640, pix_height = 480,
              pix_pixelformat = 0x56595559, pix_field = 0\<rparr>)
      (AFmt wide_fmt) 0 0 \<in> set (log_of (create_stream wide_world video0 vga raw0)) \<and>
   pix_width wide_fmt = 66176 \<and>
   stream_of (create_stream wide_world video0 vga raw0) \<noteq> None \<and>
   map_option par_w (params_of (create_stream wide_world video0 vga raw0)) = Some 640"
  by (simp add: run_simps wide_world_def wide_fmt_def)

section \<open>The buffer pool\<close>


lemma create_stream_issued:
  assumes "create_stream k path p raw = Inr (Some s, p', k')"
  shows "calls k' = calls k @ issued k k'"
    and "mappings (issued k k') = frm_buf (dev_frame (sdev s))"
    and "granted (issued k k') = [ucast (bufcnt (dev_frame (sdev s)))]"
    and "length (frm_buf (dev_frame (sdev s))) = unat (bufcnt (dev_frame (sdev s)))"
proof -
  from extends_issued [OF create_stream_init_call [OF assms]]
  show c: "calls k' = calls k @ issued k k'" by simp
  from create_stream_success [OF assms] obtain n where
    n: "granted (calls k') = granted (calls k) @ [n]"
      "unat (bufcnt (dev_frame (sdev s))) = unat n"
      "length (frm_buf (dev_frame (sdev s))) = unat n"
      "mappings (calls k') = mappings (calls k) @ frm_buf (dev_frame (sdev s))"
    by blast
  from n(4) c show "mappings (issued k k') = frm_buf (dev_frame (sdev s))" by simp
  have "unat n = unat (ucast (bufcnt (dev_frame (sdev s))) :: u32)"
    using n(2) by (simp add: unat_ucast_u8_u32)
  then have "n = ucast (bufcnt (dev_frame (sdev s)))"
    by (simp add: word_unat_eq_iff)
  with n(1) c show "granted (issued k k') = [ucast (bufcnt (dev_frame (sdev s)))]" by simp
  from n show "length (frm_buf (dev_frame (sdev s))) = unat (bufcnt (dev_frame (sdev s)))"
    by simp
qed





section \<open>Teardown\<close>

text \<open>
  C9. Let \<open>s0\<close> be a stream that \<^verbatim>\<open>create_stream\<close> returned and \<open>s\<close> any state of it
  with the same frame metadata and descriptor (every state that \<^verbatim>\<open>start\<close>,
  \<^verbatim>\<open>get_frame\<close> and \<^verbatim>\<open>put_frame\<close> lead to, whatever the pending buffer). Destroying it,
  in any world, returns, and makes exactly these calls: one unmap for each mapping that
  the construction made, then the close of the descriptor.
\<close>

theorem teardown_order:
  assumes "create_stream k0 path p raw = Inr (Some s0, p', k1)"
    and "dev_frame (sdev s) = dev_frame (sdev s0)" and "fd (sdev s) = fd (sdev s0)"
  shows "stream_dtor k s =
    Inr (k\<lparr>calls := calls k @ map unmap_call (mappings (issued k0 k1)) @
           [Close (fd (sdev s0))]\<rparr>)"
proof -
  note c = create_stream_issued [OF assms(1)]
  have "unat (bufcnt (dev_frame (sdev s))) \<le> length (frm_buf (dev_frame (sdev s)))"
    using c(4) assms(2) by simp
  from device_dtor_calls [OF this, of k] c(2,4) assms(2,3)
  show ?thesis by (simp add: stream_dtor_def)
qed

theorem teardown_order_witness:
  "stream_dtor world0 cam =
     Inr (world0\<lparr>calls := [Munmap 0x1000 4096, Munmap 0x2000 4096, Close 3]\<rparr>)"
proof -
  let ?r = "create_stream good_world video0 vga raw0"
  have "returns ?r" "stream_of ?r = Some cam"
    by (simp_all add: run_simps good_world_def cam_def replicate_two)
  then obtain p' k1 where c: "?r = Inr (Some cam, p', k1)"
    using returns_create by blast
  have m: "mappings (log_of ?r) =
      [\<lparr>bv_data = 0x1000, bv_size = 4096\<rparr>, \<lparr>bv_data = 0x2000, bv_size = 4096\<rparr>]"
    by (simp add: run_simps good_world_def mappings_def)
  have "calls good_world = []"
    by (simp add: good_world_def camera_world_def world0_def)
  with c have "issued good_world k1 = log_of ?r"
    by (simp add: issued_def log_of_def)
  with m teardown_order [OF c refl refl, of world0] show ?thesis
    by (simp add: unmap_call_def cam_def world0_def)
qed

section \<open>The pending-return marker\<close>



text \<open>C5 as stated fails: the descriptor is readable, the dequeue operation fails with
  EINVAL after the record of buffer 1 with 100 bytes was stored through its argument,
  \<^verbatim>\<open>get_frame\<close> returns false, and the \<^verbatim>\<open>put_frame\<close> that follows enqueues that
  record.\<close>

theorem failed_dequeue_counterexample:
  "get_put storing_failure cam blank =
     Inr (False,
          [Poll 3 1000 1,
           Ioctl 3 VIDIOC_DQBUF (ABuf capture_buf)
             (ABuf (capture_buf\<lparr>buf_index := 1, buf_bytesused := 100\<rparr>)) (- 1) EINVAL],
          [Ioctl 3 VIDIOC_QBUF
             (ABuf (capture_buf\<lparr>buf_index := 1, buf_bytesused := 100\<rparr>))
             (ABuf (capture_buf\<lparr>buf_index := 1, buf_bytesused := 100\<rparr>)) 0 0])"
  by (simp add: frame_simps storing_failure_def get_put_def issued_def)






section \<open>Frames after a timeout\<close>

text \<open>On a poll that times out, \<^verbatim>\<open>get_frame\<close> returns whether the caller's image had a
  byte count other than zero, and leaves the image as it was.\<close>

lemma get_frame_timeout:
  assumes "poll_rets k = r # rs" and "prc r = 0"
  shows "get_frame k s out =
     Inr (img_bytes out \<noteq> 0, out, idle s,
          k\<lparr>poll_rets := rs, calls := calls k @ [Poll (fd (sdev s)) POLL_TIMEOUT_MS 0]\<rparr>)"
  using assms
  by (simp add: get_frame_def get_frame_loop.simps poll_def idle_def)

text \<open>
  C3. The claim says that a poll timeout makes \<^verbatim>\<open>get_frame\<close> return false. With an
  image that still holds the byte count 5, the poll times out and \<^verbatim>\<open>get_frame\<close>
  returns true.
\<close>

theorem get_frame_timeout_stale:
  "get_frame timeout_world cam stale =
     Inr (True, stale, idle cam, world0\<lparr>calls := [Poll 3 1000 0]\<rparr>)"
  by (simp add: frame_simps stale_def)

text \<open>What a call of \<^verbatim>\<open>get_frame\<close> returned, the size in the image, and the size that
  \<^verbatim>\<open>get_frame_size\<close> gives for the stream.\<close>

definition frame_dims ::
  "stop + (bool \<times> image \<times> stream \<times> world) \<Rightarrow> (bool \<times> (u16 \<times> u16) \<times> (u16 \<times> u16)) option" where
  "frame_dims r =
     (case r of
        Inl e \<Rightarrow> None
      | Inr (ok, out, s, k) \<Rightarrow> Some (ok, (img_w out, img_h out), get_frame_size s))"

text \<open>
  C8. The claim says that the image of every successful \<^verbatim>\<open>get_frame\<close> has the
  negotiated size. In the run above \<^verbatim>\<open>get_frame\<close> returns true, the image has the
  size 0 by 0, and \<^verbatim>\<open>get_frame_size\<close> gives 640 by 480.
\<close>

theorem get_frame_stale_size:
  "frame_dims (get_frame timeout_world cam stale) = Some (True, (0, 0), (640, 480))"
  by (simp add: frame_simps frame_dims_def stale_def)

end
